theory Spec2Isabelle
  imports Main "HOL-Library.Word"
begin

unbundle bit_operations_syntax

section \<open>Values of the platform\<close>

text \<open>
  A JavaScript string is a sequence of 16-bit code units, a byte buffer
  (\<^verbatim>\<open>Uint8Array\<close>, \<^verbatim>\<open>ArrayBuffer\<close>) a sequence of octets.
  Source literals are ASCII and are written through \<open>js\<close>.
\<close>

type_synonym byte = "8 word"
type_synonym bytes = "byte list"
type_synonym code_unit = "16 word"
type_synonym jsstring = "code_unit list"

definition js :: "string \<Rightarrow> jsstring" where
  "js s = map (\<lambda>c. of_nat (of_char c)) s"

text \<open>Errors the modelled code can throw or receive.\<close>

datatype js_error =
    TypeError
  | OperationError
  | InvalidAccessError
  | RangeError
  | Error jsstring

text \<open>JavaScript truthiness of a string and of an optional string.\<close>

definition truthy :: "jsstring \<Rightarrow> bool" where
  "truthy s = (s \<noteq> [])"

definition truthy_opt :: "jsstring option \<Rightarrow> bool" where
  "truthy_opt s = (case s of None \<Rightarrow> False | Some v \<Rightarrow> truthy v)"

text \<open>\<^verbatim>\<open>a || b\<close> on an optional string and a string.\<close>

definition js_or :: "jsstring option \<Rightarrow> jsstring \<Rightarrow> jsstring" where
  "js_or a b = (case a of None \<Rightarrow> b | Some v \<Rightarrow> if truthy v then v else b)"

record blob =
  blob_bytes :: bytes
  blob_type :: jsstring

record js_file =
  file_name :: jsstring
  file_bytes :: bytes
  file_type :: jsstring

section \<open>Hexadecimal text: \<^verbatim>\<open>toHex\<close> and \<^verbatim>\<open>fromHex\<close>\<close>

text \<open>
  \<^verbatim>\<open>b.toString(16).padStart(2, '0')\<close> on an octet: lower-case digits, no
  leading zero from \<^verbatim>\<open>toString\<close>, then padded on the left to two characters.
\<close>

definition hex_digit :: "nat \<Rightarrow> code_unit" where
  "hex_digit d = (if d < 10 then of_nat (48 + d) else of_nat (97 + (d - 10)))"

definition toString16 :: "byte \<Rightarrow> jsstring" where
  "toString16 b =
     (if unat b < 16 then [hex_digit (unat b)]
      else [hex_digit (unat b div 16), hex_digit (unat b mod 16)])"

definition padStart :: "nat \<Rightarrow> code_unit \<Rightarrow> jsstring \<Rightarrow> jsstring" where
  "padStart n c s = replicate (n - length s) c @ s"

definition toHex :: "bytes \<Rightarrow> jsstring" where
  "toHex buf = concat (map (\<lambda>b. padStart 2 48 (toString16 b)) buf)"

text \<open>
  \<^verbatim>\<open>hex.match(/.{1,2}/g)\<close>: the dot matches every code unit but the four line
  terminators; the matches are taken greedily from left to right, and a position
  where nothing matches is skipped. With no match at all the result is
  \<^verbatim>\<open>null\<close>.
\<close>

definition is_line_terminator :: "code_unit \<Rightarrow> bool" where
  "is_line_terminator c = (c = 0x000A \<or> c = 0x000D \<or> c = 0x2028 \<or> c = 0x2029)"

fun match_chunks :: "jsstring \<Rightarrow> jsstring list" where
  "match_chunks [] = []"
| "match_chunks [c] = (if is_line_terminator c then [] else [[c]])"
| "match_chunks (c # d # ds) =
     (if is_line_terminator c then match_chunks (d # ds)
      else if is_line_terminator d then [c] # match_chunks ds
      else [c, d] # match_chunks ds)"

definition js_match :: "jsstring \<Rightarrow> jsstring list option" where
  "js_match hex = (case match_chunks hex of [] \<Rightarrow> None | m # ms \<Rightarrow> Some (m # ms))"

text \<open>
  \<^verbatim>\<open>parseInt(s, 16)\<close>: leading white space is trimmed, one sign is read, a
  prefix \<^verbatim>\<open>0x\<close> or \<^verbatim>\<open>0X\<close> is dropped, and the longest run of hexadecimal
  digits that follows is the value; with no digit the result is \<^verbatim>\<open>NaN\<close>
  (\<open>None\<close>).
\<close>

definition is_white_space :: "code_unit \<Rightarrow> bool" where
  "is_white_space c =
     (c = 0x0009 \<or> c = 0x000B \<or> c = 0x000C \<or> c = 0x0020 \<or> c = 0x00A0 \<or> c = 0x1680
      \<or> (0x2000 \<le> c \<and> c \<le> 0x200A) \<or> c = 0x202F \<or> c = 0x205F \<or> c = 0x3000
      \<or> c = 0xFEFF \<or> is_line_terminator c)"

definition is_hex_digit :: "code_unit \<Rightarrow> bool" where
  "is_hex_digit c =
     ((0x30 \<le> c \<and> c \<le> 0x39) \<or> (0x61 \<le> c \<and> c \<le> 0x66) \<or> (0x41 \<le> c \<and> c \<le> 0x46))"

definition hex_value :: "code_unit \<Rightarrow> int" where
  "hex_value c =
     (if 0x30 \<le> c \<and> c \<le> 0x39 then uint c - 0x30
      else if 0x61 \<le> c \<and> c \<le> 0x66 then uint c - 0x61 + 10
      else uint c - 0x41 + 10)"

definition strip_sign :: "jsstring \<Rightarrow> int \<times> jsstring" where
  "strip_sign s =
     (case s of
        [] \<Rightarrow> (1, [])
      | c # r \<Rightarrow> if c = 0x2D then (- 1, r) else if c = 0x2B then (1, r) else (1, c # r))"

definition strip_prefix16 :: "jsstring \<Rightarrow> jsstring" where
  "strip_prefix16 s =
     (case s of
        a # b # r \<Rightarrow> if a = 0x30 \<and> (b = 0x78 \<or> b = 0x58) then r else s
      | _ \<Rightarrow> s)"

definition parseInt16 :: "jsstring \<Rightarrow> int option" where
  "parseInt16 s =
     (let (sign, s2) = strip_sign (dropWhile is_white_space s);
          z = takeWhile is_hex_digit (strip_prefix16 s2)
      in if z = [] then None
         else Some (sign * foldl (\<lambda>a d. 16 * a + hex_value d) 0 z))"

text \<open>
  Storing a number into a \<^verbatim>\<open>Uint8Array\<close>: \<^verbatim>\<open>NaN\<close> becomes 0, an integer is
  reduced modulo 256.
\<close>

definition toUint8 :: "int option \<Rightarrow> byte" where
  "toUint8 n = (case n of None \<Rightarrow> 0 | Some v \<Rightarrow> of_int v)"

text \<open>
  \<^verbatim>\<open>fromHex\<close>: the non-null assertion on the match has no run-time effect, so
  \<^verbatim>\<open>.map\<close> on \<^verbatim>\<open>null\<close> throws a \<^verbatim>\<open>TypeError\<close>.
\<close>

definition fromHex :: "jsstring \<Rightarrow> js_error + bytes" where
  "fromHex hex =
     (case js_match hex of
        None \<Rightarrow> Inl TypeError
      | Some ms \<Rightarrow> Inr (map (\<lambda>byte. toUint8 (parseInt16 byte)) ms))"

section \<open>\<^verbatim>\<open>TextEncoder\<close> and \<^verbatim>\<open>TextDecoder\<close>\<close>

text \<open>
  \<^verbatim>\<open>enc.encode\<close> first reads the string as scalar values: a lead surrogate
  followed by a trail surrogate is one supplementary code point, every other
  surrogate is replaced by U+FFFD. It then writes UTF-8 and never writes a byte
  order mark.
\<close>

definition is_lead :: "code_unit \<Rightarrow> bool" where
  "is_lead c = (0xD800 \<le> c \<and> c \<le> 0xDBFF)"

definition is_trail :: "code_unit \<Rightarrow> bool" where
  "is_trail c = (0xDC00 \<le> c \<and> c \<le> 0xDFFF)"

definition pair_value :: "code_unit \<Rightarrow> code_unit \<Rightarrow> nat" where
  "pair_value c d = 0x10000 + (unat c - 0xD800) * 0x400 + (unat d - 0xDC00)"

fun to_scalars :: "jsstring \<Rightarrow> nat list" where
  "to_scalars [] = []"
| "to_scalars [c] = [if is_lead c \<or> is_trail c then 0xFFFD else unat c]"
| "to_scalars (c # d # r) =
     (if is_lead c then
        (if is_trail d then pair_value c d # to_scalars r
         else 0xFFFD # to_scalars (d # r))
      else if is_trail c then 0xFFFD # to_scalars (d # r)
      else unat c # to_scalars (d # r))"

definition utf8_encode_cp :: "nat \<Rightarrow> bytes" where
  "utf8_encode_cp cp =
     (if cp < 0x80 then [of_nat cp]
      else if cp < 0x800 then [of_nat (0xC0 + cp div 64), of_nat (0x80 + cp mod 64)]
      else if cp < 0x10000 then
        [of_nat (0xE0 + cp div 4096), of_nat (0x80 + cp div 64 mod 64),
         of_nat (0x80 + cp mod 64)]
      else
        [of_nat (0xF0 + cp div 262144), of_nat (0x80 + cp div 4096 mod 64),
         of_nat (0x80 + cp div 64 mod 64), of_nat (0x80 + cp mod 64)])"

definition enc_encode :: "jsstring \<Rightarrow> bytes" where
  "enc_encode s = concat (map utf8_encode_cp (to_scalars s))"

text \<open>
  \<^verbatim>\<open>dec.decode\<close> is the UTF-8 decoder of the Encoding Standard in replacement
  mode. Masks and shifts are written as arithmetic: \<^verbatim>\<open>b & 0x3F\<close> is
  \<open>b mod 64\<close>, \<^verbatim>\<open>(cp << 6) | x\<close> is \<open>cp * 64 + x\<close> for \<open>x < 64\<close>. A
  continuation byte out of range ends the sequence with U+FFFD and is then read
  again as the first byte of the next one.
\<close>

record utf8_decoder =
  code_point :: nat
  bytes_seen :: nat
  bytes_needed :: nat
  lower_boundary :: nat
  upper_boundary :: nat

definition utf8_init :: utf8_decoder where
  "utf8_init =
     \<lparr>code_point = 0, bytes_seen = 0, bytes_needed = 0,
      lower_boundary = 0x80, upper_boundary = 0xBF\<rparr>"

definition utf8_lead :: "nat \<Rightarrow> utf8_decoder \<times> nat list" where
  "utf8_lead b =
     (if b \<le> 0x7F then (utf8_init, [b])
      else if 0xC2 \<le> b \<and> b \<le> 0xDF then
        (utf8_init\<lparr>bytes_needed := 1, code_point := b mod 32\<rparr>, [])
      else if 0xE0 \<le> b \<and> b \<le> 0xEF then
        (utf8_init\<lparr>lower_boundary := (if b = 0xE0 then 0xA0 else 0x80),
                   upper_boundary := (if b = 0xED then 0x9F else 0xBF),
                   bytes_needed := 2, code_point := b mod 16\<rparr>, [])
      else if 0xF0 \<le> b \<and> b \<le> 0xF4 then
        (utf8_init\<lparr>lower_boundary := (if b = 0xF0 then 0x90 else 0x80),
                   upper_boundary := (if b = 0xF4 then 0x8F else 0xBF),
                   bytes_needed := 3, code_point := b mod 8\<rparr>, [])
      else (utf8_init, [0xFFFD]))"

definition utf8_step :: "utf8_decoder \<Rightarrow> nat \<Rightarrow> utf8_decoder \<times> nat list" where
  "utf8_step d b =
     (if bytes_needed d = 0 then utf8_lead b
      else if b < lower_boundary d \<or> upper_boundary d < b then
        (fst (utf8_lead b), 0xFFFD # snd (utf8_lead b))
      else if bytes_seen d + 1 \<noteq> bytes_needed d then
        (d\<lparr>lower_boundary := 0x80, upper_boundary := 0xBF,
           code_point := code_point d * 64 + b mod 64,
           bytes_seen := bytes_seen d + 1\<rparr>, [])
      else (utf8_init, [code_point d * 64 + b mod 64]))"

fun utf8_run :: "utf8_decoder \<Rightarrow> nat list \<Rightarrow> nat list" where
  "utf8_run d [] = (if bytes_needed d \<noteq> 0 then [0xFFFD] else [])"
| "utf8_run d (b # bs) = snd (utf8_step d b) @ utf8_run (fst (utf8_step d b)) bs"

definition from_scalar :: "nat \<Rightarrow> jsstring" where
  "from_scalar cp =
     (if cp < 0x10000 then [of_nat cp]
      else [of_nat (0xD800 + (cp - 0x10000) div 0x400),
            of_nat (0xDC00 + (cp - 0x10000) mod 0x400)])"

definition strip_bom :: "bytes \<Rightarrow> bytes" where
  "strip_bom bs = (if take 3 bs = [0xEF, 0xBB, 0xBF] then drop 3 bs else bs)"

definition dec_decode :: "bytes \<Rightarrow> jsstring" where
  "dec_decode bs = concat (map from_scalar (utf8_run utf8_init (map unat (strip_bom bs))))"

section \<open>Web Crypto\<close>

text \<open>
  The primitives of \<^verbatim>\<open>window.crypto.subtle\<close> are parameters: PBKDF2 with
  HMAC-SHA-256 and 100000 iterations giving the material of a 256-bit key, and
  AES-GCM with that key. Decryption returns \<open>None\<close> where the authentication
  tag does not verify. A key handle carries its usages, and an operation outside
  them is refused.
\<close>

record 'k webcrypto =
  pbkdf2 :: "bytes \<Rightarrow> bytes \<Rightarrow> 'k"
  aes_gcm_encrypt :: "'k \<Rightarrow> bytes \<Rightarrow> bytes \<Rightarrow> bytes"
  aes_gcm_decrypt :: "'k \<Rightarrow> bytes \<Rightarrow> bytes \<Rightarrow> bytes option"

datatype key_usage = UseEncrypt | UseDecrypt | UseDeriveKey

record 'm crypto_key =
  material :: 'm
  usages :: "key_usage list"

definition subtle_importKey :: "bytes \<Rightarrow> key_usage list \<Rightarrow> bytes crypto_key" where
  "subtle_importKey raw us = \<lparr>material = raw, usages = us\<rparr>"

definition subtle_deriveKey ::
  "'k webcrypto \<Rightarrow> bytes \<Rightarrow> bytes crypto_key \<Rightarrow> key_usage list \<Rightarrow> js_error + 'k crypto_key" where
  "subtle_deriveKey wc salt base us =
     (if UseDeriveKey \<in> set (usages base)
      then Inr \<lparr>material = pbkdf2 wc (material base) salt, usages = us\<rparr>
      else Inl InvalidAccessError)"

definition subtle_encrypt ::
  "'k webcrypto \<Rightarrow> bytes \<Rightarrow> 'k crypto_key \<Rightarrow> bytes \<Rightarrow> js_error + bytes" where
  "subtle_encrypt wc iv key data =
     (if UseEncrypt \<in> set (usages key)
      then Inr (aes_gcm_encrypt wc (material key) iv data)
      else Inl InvalidAccessError)"

definition subtle_decrypt ::
  "'k webcrypto \<Rightarrow> bytes \<Rightarrow> 'k crypto_key \<Rightarrow> bytes \<Rightarrow> js_error + bytes" where
  "subtle_decrypt wc iv key data =
     (if UseDecrypt \<in> set (usages key)
      then (case aes_gcm_decrypt wc (material key) iv data of
              None \<Rightarrow> Inl OperationError
            | Some x \<Rightarrow> Inr x)
      else Inl InvalidAccessError)"

text \<open>
  \<^verbatim>\<open>getRandomValues\<close> reads the next octets of the generator, here a tape
  of the octets not yet drawn.
\<close>

type_synonym rng = "nat \<Rightarrow> byte"

definition getRandomValues :: "nat \<Rightarrow> rng \<Rightarrow> bytes \<times> rng" where
  "getRandomValues n g = (map g [0..<n], \<lambda>i. g (n + i))"

section \<open>\<^verbatim>\<open>services/crypto.ts\<close>\<close>

definition getPasswordKey :: "jsstring \<Rightarrow> bytes crypto_key" where
  "getPasswordKey password = subtle_importKey (enc_encode password) [UseDeriveKey]"

definition deriveKey ::
  "'k webcrypto \<Rightarrow> bytes crypto_key \<Rightarrow> bytes \<Rightarrow> key_usage list \<Rightarrow> js_error + 'k crypto_key" where
  "deriveKey wc passwordKey salt keyUsage = subtle_deriveKey wc salt passwordKey keyUsage"

record payload =
  ciphertext :: jsstring
  iv :: jsstring
  salt :: jsstring

text \<open>
  \<^verbatim>\<open>encryptData\<close>. A supplied salt that is the empty string is falsy, so a
  salt is drawn then too. The generator is read for the salt before the nonce,
  and not at all where \<^verbatim>\<open>fromHex\<close> throws.
\<close>

definition encryptData ::
  "'k webcrypto \<Rightarrow> jsstring \<Rightarrow> jsstring \<Rightarrow> jsstring option \<Rightarrow> rng \<Rightarrow> (js_error + payload) \<times> rng" where
  "encryptData wc text password providedSalt g =
     (case (case providedSalt of
              None \<Rightarrow> Inr (getRandomValues 16 g)
            | Some h \<Rightarrow>
                if truthy h
                then (case fromHex h of Inl e \<Rightarrow> Inl e | Inr s \<Rightarrow> Inr (s, g))
                else Inr (getRandomValues 16 g)) of
        Inl e \<Rightarrow> (Inl e, g)
      | Inr (salt_b, g1) \<Rightarrow>
          (let (iv_b, g2) = getRandomValues 12 g1;
               passwordKey = getPasswordKey password
           in case deriveKey wc passwordKey salt_b [UseEncrypt] of
                Inl e \<Rightarrow> (Inl e, g2)
              | Inr aesKey \<Rightarrow>
                  (case subtle_encrypt wc iv_b aesKey (enc_encode text) of
                     Inl e \<Rightarrow> (Inl e, g2)
                   | Inr encrypted \<Rightarrow>
                       (Inr \<lparr>ciphertext = toHex encrypted, iv = toHex iv_b,
                             salt = toHex salt_b\<rparr>, g2))))"

definition decryptData ::
  "'k webcrypto \<Rightarrow> jsstring \<Rightarrow> jsstring \<Rightarrow> jsstring \<Rightarrow> jsstring \<Rightarrow> js_error + jsstring" where
  "decryptData wc ciphertext_hex ivHex saltHex password =
     (case fromHex saltHex of
        Inl e \<Rightarrow> Inl e
      | Inr salt_b \<Rightarrow>
     (case fromHex ivHex of
        Inl e \<Rightarrow> Inl e
      | Inr iv_b \<Rightarrow>
     (case fromHex ciphertext_hex of
        Inl e \<Rightarrow> Inl e
      | Inr data \<Rightarrow>
     (case deriveKey wc (getPasswordKey password) salt_b [UseDecrypt] of
        Inl e \<Rightarrow> Inl e
      | Inr aesKey \<Rightarrow>
     (case subtle_decrypt wc iv_b aesKey data of
        Inl e \<Rightarrow> Inl e
      | Inr decrypted \<Rightarrow> Inr (dec_decode decrypted))))))"

definition octet_stream :: jsstring where
  "octet_stream = js ''application/octet-stream''"

text \<open>
  \<^verbatim>\<open>new Blob(parts, { type })\<close>: the type is kept in ASCII lower case, and is
  empty if it has a code unit outside U+0020 to U+007E.
\<close>

definition ascii_lower :: "code_unit \<Rightarrow> code_unit" where
  "ascii_lower c = (if 0x41 \<le> c \<and> c \<le> 0x5A then c + 0x20 else c)"

definition blob_type_of :: "jsstring \<Rightarrow> jsstring" where
  "blob_type_of t =
     (if list_all (\<lambda>c. 0x20 \<le> c \<and> c \<le> 0x7E) t then map ascii_lower t else [])"

definition new_Blob :: "bytes \<Rightarrow> jsstring \<Rightarrow> blob" where
  "new_Blob parts t = \<lparr>blob_bytes = parts, blob_type = blob_type_of t\<rparr>"

definition encryptFile ::
  "'k webcrypto \<Rightarrow> js_file \<Rightarrow> jsstring \<Rightarrow> rng \<Rightarrow> (js_error + blob) \<times> rng" where
  "encryptFile wc f password g =
     (let fileData = file_bytes f;
          (salt_b, g1) = getRandomValues 16 g;
          (iv_b, g2) = getRandomValues 12 g1;
          passwordKey = getPasswordKey password
      in case deriveKey wc passwordKey salt_b [UseEncrypt] of
           Inl e \<Rightarrow> (Inl e, g2)
         | Inr aesKey \<Rightarrow>
             (case subtle_encrypt wc iv_b aesKey fileData of
                Inl e \<Rightarrow> (Inl e, g2)
              | Inr encrypted \<Rightarrow>
                  (Inr (new_Blob (salt_b @ iv_b @ encrypted) octet_stream), g2)))"

text \<open>\<^verbatim>\<open>buffer.slice(a, b)\<close> clamps to the buffer, as \<open>take\<close> and \<open>drop\<close> do.\<close>

definition buffer_slice :: "nat \<Rightarrow> nat \<Rightarrow> bytes \<Rightarrow> bytes" where
  "buffer_slice a b buf = drop a (take b buf)"

definition decryptFile ::
  "'k webcrypto \<Rightarrow> blob \<Rightarrow> jsstring \<Rightarrow> jsstring option \<Rightarrow> js_error + blob" where
  "decryptFile wc encryptedBlob password mimeType =
     (let buffer = blob_bytes encryptedBlob;
          salt_b = buffer_slice 0 16 buffer;
          iv_b = buffer_slice 16 28 buffer;
          data = drop 28 buffer
      in case deriveKey wc (getPasswordKey password) salt_b [UseDecrypt] of
           Inl e \<Rightarrow> Inl e
         | Inr aesKey \<Rightarrow>
             (case subtle_decrypt wc iv_b aesKey data of
                Inl e \<Rightarrow> Inl e
              | Inr decrypted \<Rightarrow>
                  Inr (new_Blob decrypted (js_or mimeType octet_stream))))"

text \<open>
  A small cipher with the interface of the primitives, used to run the
  definitions on concrete inputs: the key is the password followed by the salt,
  the tag is the first sixteen octets of key, nonce and padding.
\<close>

definition toy_tag :: "bytes \<Rightarrow> bytes \<Rightarrow> bytes" where
  "toy_tag k n = take 16 (k @ n @ replicate 16 0)"

definition toy_decrypt :: "bytes \<Rightarrow> bytes \<Rightarrow> bytes \<Rightarrow> bytes option" where
  "toy_decrypt k n d =
     (if 16 \<le> length d \<and> drop (length d - 16) d = toy_tag k n
      then Some (take (length d - 16) d) else None)"

definition toy_crypto :: "bytes webcrypto" where
  "toy_crypto =
     \<lparr>pbkdf2 = (\<lambda>pw s. pw @ s),
      aes_gcm_encrypt = (\<lambda>k n x. x @ toy_tag k n),
      aes_gcm_decrypt = toy_decrypt\<rparr>"



definition zero_rng :: rng where
  "zero_rng = (\<lambda>i. 0)"

definition count_rng :: rng where
  "count_rng = (\<lambda>i. of_nat i)"


section \<open>Well-formed text\<close>

text \<open>Unicode scalar values: code points that are not surrogates.\<close>

definition is_scalar :: "nat \<Rightarrow> bool" where
  "is_scalar cp = (cp < 0x110000 \<and> \<not> (0xD800 \<le> cp \<and> cp \<le> 0xDFFF))"

text \<open>Strings without unpaired surrogates.\<close>

fun well_formed :: "jsstring \<Rightarrow> bool" where
  "well_formed [] = True"
| "well_formed [c] = (\<not> is_lead c \<and> \<not> is_trail c)"
| "well_formed (c # d # r) =
     (if is_lead c then is_trail d \<and> well_formed r
      else \<not> is_trail c \<and> well_formed (d # r))"

text \<open>A string that begins with the byte order mark U+FEFF.\<close>

definition starts_with_bom :: "jsstring \<Rightarrow> bool" where
  "starts_with_bom s = (case s of [] \<Rightarrow> False | c # r \<Rightarrow> c = 0xFEFF)"

section \<open>Encrypting, then decrypting\<close>

text \<open>
  The payload of \<^verbatim>\<open>encryptData(t, p1)\<close>, with no salt supplied, handed field by
  field to \<^verbatim>\<open>decryptData\<close> with the password \<open>p2\<close>.
\<close>

definition encrypt_then_decrypt ::
  "'k webcrypto \<Rightarrow> jsstring \<Rightarrow> jsstring \<Rightarrow> jsstring \<Rightarrow> rng \<Rightarrow> js_error + jsstring" where
  "encrypt_then_decrypt wc t p1 p2 g =
     (case fst (encryptData wc t p1 None g) of
        Inl e \<Rightarrow> Inl e
      | Inr pl \<Rightarrow> decryptData wc (ciphertext pl) (iv pl) (salt pl) p2)"


section \<open>Strings of the application\<close>

text \<open>\<^verbatim>\<open>s.trim()\<close> removes white space and line terminators at both ends.\<close>

definition trim :: "jsstring \<Rightarrow> jsstring" where
  "trim s = rev (dropWhile is_white_space (rev (dropWhile is_white_space s)))"

text \<open>\<^verbatim>\<open>s.split(sep).pop()\<close>: what follows the last separator, or all of \<open>s\<close>.\<close>

definition last_segment :: "code_unit \<Rightarrow> jsstring \<Rightarrow> jsstring" where
  "last_segment sep s = rev (takeWhile (\<lambda>c. c \<noteq> sep) (rev s))"

fun starts_with :: "jsstring \<Rightarrow> jsstring \<Rightarrow> bool" where
  "starts_with s [] = True"
| "starts_with [] (p # ps) = False"
| "starts_with (c # cs) (p # ps) = (c = p \<and> starts_with cs ps)"

fun js_includes :: "jsstring \<Rightarrow> jsstring \<Rightarrow> bool" where
  "js_includes [] p = (p = [])"
| "js_includes (c # cs) p = (starts_with (c # cs) p \<or> js_includes cs p)"

text \<open>A number as decimal text, as a template literal writes it.\<close>

function show_nat :: "nat \<Rightarrow> jsstring" where
  "show_nat n =
     (if n < 10 then [of_nat (48 + n)]
      else show_nat (n div 10) @ [of_nat (48 + n mod 10)])"
  by pat_completeness auto
termination
  by (relation "measure id") simp_all

text \<open>
  \<^verbatim>\<open>replace(/^\^\d+_/, '')\<close>: a caret, one or more digits and an underscore at
  the start are removed.
\<close>

definition is_digit :: "code_unit \<Rightarrow> bool" where
  "is_digit c = (0x30 \<le> c \<and> c \<le> 0x39)"

definition strip_stamp :: "jsstring \<Rightarrow> jsstring" where
  "strip_stamp s =
     (case s of
        [] \<Rightarrow> []
      | c # r \<Rightarrow>
          if c = 0x5E \<and> takeWhile is_digit r \<noteq> []
             \<and> starts_with (dropWhile is_digit r) [0x5F]
          then tl (dropWhile is_digit r) else s)"

definition getFileNameFromPath :: "jsstring \<Rightarrow> jsstring" where
  "getFileNameFromPath path = js_or (Some (strip_stamp (last_segment 0x2F path))) (js ''Unknown File'')"

section \<open>The platform and the store\<close>

text \<open>
  What the browser provides besides cryptography: lower-casing, the data URL of
  a blob, \<^verbatim>\<open>new Date(s).toISOString()\<close> (\<open>None\<close> where it throws a
  \<^verbatim>\<open>RangeError\<close>), the ISO text of a time, and the message of a built-in error.
\<close>

record platform =
  toLowerCase :: "jsstring \<Rightarrow> jsstring"
  readAsDataURL :: "blob \<Rightarrow> jsstring"
  toISOString :: "jsstring \<Rightarrow> jsstring option"
  nowISOString :: "nat \<Rightarrow> jsstring"
  builtin_message :: "js_error \<Rightarrow> jsstring"

definition error_message :: "platform \<Rightarrow> js_error \<Rightarrow> jsstring" where
  "error_message p e = (case e of Error m \<Rightarrow> m | _ \<Rightarrow> builtin_message p e)"

definition file_ext :: "platform \<Rightarrow> jsstring \<Rightarrow> jsstring" where
  "file_ext p filename = toLowerCase p (last_segment 0x2E filename)"

definition isTextFile :: "platform \<Rightarrow> jsstring \<Rightarrow> bool" where
  "isTextFile p filename =
     (file_ext p filename \<in> set (map js
        [''txt'', ''md'', ''json'', ''js'', ''ts'', ''log'', ''html'', ''css'', ''csv'']))"

definition isImageFile :: "platform \<Rightarrow> jsstring \<Rightarrow> bool" where
  "isImageFile p filename =
     (file_ext p filename \<in> set (map js
        [''png'', ''jpg'', ''jpeg'', ''gif'', ''webp'', ''svg'', ''bmp'']))"

definition mimeMap :: "(jsstring \<times> jsstring) list" where
  "mimeMap =
     [(js ''png'', js ''image/png''), (js ''jpg'', js ''image/jpeg''),
      (js ''jpeg'', js ''image/jpeg''), (js ''gif'', js ''image/gif''),
      (js ''webp'', js ''image/webp''), (js ''svg'', js ''image/svg+xml''),
      (js ''pdf'', js ''application/pdf''), (js ''txt'', js ''text/plain''),
      (js ''md'', js ''text/markdown'')]"

text \<open>
  The lookup in \<^verbatim>\<open>mimeMap\<close> is only used for text and image files, whose
  extensions are none of the property names an object inherits.
\<close>

definition mime_of :: "platform \<Rightarrow> jsstring \<Rightarrow> jsstring" where
  "mime_of p filename = js_or (map_of mimeMap (file_ext p filename)) octet_stream"

text \<open>Notes as the application holds them, and as the tables hold them.\<close>

record vault_note =
  n_id :: jsstring
  n_created_at :: jsstring
  n_title :: jsstring
  n_content :: jsstring
  n_is_encrypted :: bool
  n_category :: jsstring
  n_attachments :: "jsstring list option"
  n_iv :: "jsstring option"
  n_title_iv :: "jsstring option"
  n_salt :: "jsstring option"
  n_user_id :: jsstring

record stored_row =
  sr_id :: jsstring
  sr_created_at :: "jsstring option"
  sr_title :: "jsstring option"
  sr_ciphertext :: "jsstring option"
  sr_content :: "jsstring option"
  sr_is_encrypted :: bool
  sr_category :: "jsstring option"
  sr_attachments :: "jsstring list option"
  sr_iv :: "jsstring option"
  sr_title_iv :: "jsstring option"
  sr_salt :: "jsstring option"
  sr_user_id :: jsstring

text \<open>The object a save hands to \<^verbatim>\<open>db.insertNote\<close> or \<^verbatim>\<open>db.updateNote\<close>.\<close>

record note_payload =
  np_title :: jsstring
  np_content :: jsstring
  np_is_encrypted :: bool
  np_category :: jsstring
  np_iv :: "jsstring option"
  np_salt :: "jsstring option"
  np_attachments :: "jsstring list"
  np_created_at :: jsstring

record db_row =
  r_title :: jsstring
  r_ciphertext :: jsstring
  r_is_encrypted :: bool
  r_category :: jsstring
  r_attachments :: "jsstring list"
  r_iv :: "jsstring option"
  r_title_iv :: "jsstring option"
  r_salt :: "jsstring option"
  r_user_id :: jsstring
  r_created_at :: jsstring

record db_update =
  u_title :: jsstring
  u_category :: jsstring
  u_is_encrypted :: bool
  u_attachments :: "jsstring list"
  u_created_at :: jsstring
  u_content :: "jsstring option"
  u_ciphertext :: "jsstring option"
  u_iv :: "jsstring option"
  u_salt :: "jsstring option"

text \<open>
  The Supabase client is a parameter: its operations read or change a backend
  \<open>'b\<close> and answer with data or with an error.
\<close>

record 'b supabase =
  auth_getUser :: "'b \<Rightarrow> jsstring option"
  notes_select :: "'b \<Rightarrow> js_error + stored_row list"
  notes_insert :: "db_row \<Rightarrow> 'b \<Rightarrow> js_error option \<times> 'b"
  notes_update :: "jsstring \<Rightarrow> db_update \<Rightarrow> 'b \<Rightarrow> js_error option \<times> 'b"
  notes_delete :: "jsstring \<Rightarrow> 'b \<Rightarrow> (js_error + stored_row list) \<times> 'b"
  storage_upload :: "jsstring \<Rightarrow> jsstring \<Rightarrow> blob \<Rightarrow> 'b \<Rightarrow> (js_error + jsstring) \<times> 'b"
  storage_download :: "jsstring \<Rightarrow> jsstring \<Rightarrow> 'b \<Rightarrow> js_error + blob"

record ('k, 'b) env =
  env_crypto :: "'k webcrypto"
  env_store :: "'b supabase"
  env_platform :: platform

section \<open>\<^verbatim>\<open>services/supabase.ts\<close>\<close>

definition PRIMARY_BUCKET :: jsstring where
  "PRIMARY_BUCKET = js ''attachments''"

definition LEGACY_BUCKET :: jsstring where
  "LEGACY_BUCKET = js ''vault_files''"

definition db_getNotes :: "'b supabase \<Rightarrow> platform \<Rightarrow> nat \<Rightarrow> 'b \<Rightarrow> js_error + vault_note list" where
  "db_getNotes sb p now b =
     (case notes_select sb b of
        Inl e \<Rightarrow> Inl e
      | Inr rows \<Rightarrow>
          Inr (map (\<lambda>n.
            \<lparr>n_id = sr_id n,
             n_created_at = js_or (sr_created_at n) (nowISOString p now),
             n_title = js_or (sr_title n) (js ''Untitled Note''),
             n_content = js_or (sr_ciphertext n) (js_or (sr_content n) []),
             n_is_encrypted = sr_is_encrypted n,
             n_category = js_or (sr_category n) (js ''Personal''),
             n_attachments = sr_attachments n,
             n_iv = sr_iv n,
             n_title_iv = sr_title_iv n,
             n_salt = sr_salt n,
             n_user_id = sr_user_id n\<rparr>) rows))"

text \<open>The \<^verbatim>\<open>dbPayload\<close> of \<^verbatim>\<open>insertNote\<close> and of \<^verbatim>\<open>updateNote\<close>.\<close>

definition insert_payload :: "platform \<Rightarrow> nat \<Rightarrow> jsstring \<Rightarrow> note_payload \<Rightarrow> db_row" where
  "insert_payload p now uid vault_note =
     \<lparr>r_title = np_title vault_note,
      r_ciphertext = np_content vault_note,
      r_is_encrypted = np_is_encrypted vault_note,
      r_category = np_category vault_note,
      r_attachments = np_attachments vault_note,
      r_iv = np_iv vault_note,
      r_title_iv = None,
      r_salt = np_salt vault_note,
      r_user_id = uid,
      r_created_at = js_or (Some (np_created_at vault_note)) (nowISOString p now)\<rparr>"

definition update_payload :: "note_payload \<Rightarrow> db_update" where
  "update_payload updates =
     \<lparr>u_title = np_title updates,
      u_category = np_category updates,
      u_is_encrypted = np_is_encrypted updates,
      u_attachments = np_attachments updates,
      u_created_at = np_created_at updates,
      u_content = (if truthy (np_content updates) then None else Some (np_content updates)),
      u_ciphertext = (if truthy (np_content updates) then Some (np_content updates) else None),
      u_iv = np_iv updates,
      u_salt = np_salt updates\<rparr>"

definition db_insertNote ::
  "'b supabase \<Rightarrow> platform \<Rightarrow> nat \<Rightarrow> note_payload \<Rightarrow> 'b \<Rightarrow> js_error option \<times> 'b" where
  "db_insertNote sb p now vault_note b =
     (case auth_getUser sb b of
        None \<Rightarrow> (Some (Error (js ''You must be logged in to save.'')), b)
      | Some uid \<Rightarrow> notes_insert sb (insert_payload p now uid vault_note) b)"

definition db_updateNote ::
  "'b supabase \<Rightarrow> jsstring \<Rightarrow> note_payload \<Rightarrow> 'b \<Rightarrow> js_error option \<times> 'b" where
  "db_updateNote sb ident updates b = notes_update sb ident (update_payload updates) b"

definition db_deleteNote :: "'b supabase \<Rightarrow> jsstring \<Rightarrow> 'b \<Rightarrow> js_error option \<times> 'b" where
  "db_deleteNote sb ident b =
     (case notes_delete sb ident b of
        (Inl e, b') \<Rightarrow> (Some e, b')
      | (Inr rows, b') \<Rightarrow>
          if rows = []
          then (Some (Error (js ''Permission Denied: You cannot delete this note.'')), b')
          else (None, b'))"

definition db_uploadFile ::
  "'b supabase \<Rightarrow> nat \<Rightarrow> blob \<Rightarrow> jsstring \<Rightarrow> 'b \<Rightarrow> (js_error + jsstring) \<times> 'b" where
  "db_uploadFile sb now f fileName b =
     (case auth_getUser sb b of
        None \<Rightarrow> (Inl (Error (js ''User not found'')), b)
      | Some uid \<Rightarrow>
          storage_upload sb PRIMARY_BUCKET (uid @ js ''/'' @ show_nat now @ js ''_'' @ fileName) f b)"

definition db_downloadFile ::
  "'b supabase \<Rightarrow> platform \<Rightarrow> jsstring \<Rightarrow> 'b \<Rightarrow> js_error + blob" where
  "db_downloadFile sb p path b =
     (case storage_download sb PRIMARY_BUCKET path b of
        Inr d \<Rightarrow> Inr d
      | Inl e \<Rightarrow>
          if js_includes (error_message p e) (js ''Object not found'')
          then (case storage_download sb LEGACY_BUCKET path b of
                  Inr d \<Rightarrow> Inr d
                | Inl e' \<Rightarrow> Inl e)
          else Inl e)"

section \<open>The state of \<^verbatim>\<open>App\<close>\<close>

record plain =
  p_title :: jsstring
  p_content :: jsstring

record edit_form =
  ef_title :: jsstring
  ef_content :: jsstring
  ef_category :: jsstring
  ef_is_encrypted :: bool
  ef_password :: jsstring
  ef_confirmPassword :: jsstring
  ef_date :: jsstring

record new_note_form =
  nn_title :: jsstring
  nn_content :: jsstring
  nn_encrypt :: bool
  nn_password :: jsstring
  nn_confirmPassword :: jsstring
  nn_category :: jsstring
  nn_date :: jsstring

text \<open>
  What the handlers do to the outside, in order: alerts, console warnings, and
  the calls to the ciphers and to the store.
\<close>

datatype effect =
    Alert jsstring
  | Warn js_error
  | EncryptDataCall
  | EncryptFileCall jsstring
  | DecryptDataCall
  | DecryptFileCall jsstring
  | UploadCall jsstring
  | DownloadCall jsstring
  | InsertCall note_payload
  | UpdateCall jsstring note_payload
  | DeleteCall jsstring
  | SelectCall

text \<open>
  The React state of the component that the vault uses, with what surrounds it:
  the pending timeouts (handle and due time), the clock in milliseconds, the
  generator, the backend and the effects so far.
\<close>

record 'b app_state =
  session :: bool
  vault_notes :: "vault_note list"
  selectedNoteId :: "jsstring option"
  isEditing :: bool
  isCreating :: bool
  unlockPassword :: jsstring
  decryptedCache :: "jsstring \<rightharpoonup> plain"
  attachmentTextCache :: "jsstring \<rightharpoonup> jsstring"
  attachmentImageCache :: "jsstring \<rightharpoonup> jsstring"
  lockTimerRef :: "nat option"
  showPassword :: bool
  editForm :: edit_form
  newNote :: new_note_form
  stagedFiles :: "js_file list"
  existingAttachments :: "jsstring list"
  isUploading :: bool
  selectedCategory :: jsstring
  searchQuery :: jsstring
  mobileView :: jsstring
  timeouts :: "(nat \<times> nat) list"
  nextHandle :: nat
  clock :: nat
  generator :: rng
  backend :: 'b
  effects :: "effect list"

definition emit :: "effect \<Rightarrow> 'b app_state \<Rightarrow> 'b app_state" where
  "emit e s = s\<lparr>effects := effects s @ [e]\<rparr>"

definition selectedNote :: "'b app_state \<Rightarrow> vault_note option" where
  "selectedNote s =
     (case selectedNoteId s of
        None \<Rightarrow> None
      | Some i \<Rightarrow> find (\<lambda>n. n_id n = i) (vault_notes s))"

text \<open>\<^verbatim>\<open>setTimeout\<close> and \<^verbatim>\<open>clearTimeout\<close>; a handle is a positive number.\<close>

definition setTimeout :: "nat \<Rightarrow> 'b app_state \<Rightarrow> nat \<times> 'b app_state" where
  "setTimeout delay s =
     (nextHandle s,
      s\<lparr>timeouts := timeouts s @ [(nextHandle s, clock s + delay)],
        nextHandle := nextHandle s + 1\<rparr>)"

definition clearTimeout :: "nat \<Rightarrow> 'b app_state \<Rightarrow> 'b app_state" where
  "clearTimeout h s = s\<lparr>timeouts := filter (\<lambda>t. fst t \<noteq> h) (timeouts s)\<rparr>"

definition clearLockTimer :: "'b app_state \<Rightarrow> 'b app_state" where
  "clearLockTimer s =
     (case lockTimerRef s of
        None \<Rightarrow> s
      | Some h \<Rightarrow> if h \<noteq> 0 then clearTimeout h s else s)"

section \<open>The attachment indexer\<close>

text \<open>
  The body of the \<^verbatim>\<open>try\<close> for a text attachment and for an image attachment.
  The caches tested are those of the render in which the handler was created;
  the caches written are the current ones.
\<close>

definition fetch_final ::
  "('k, 'b) env \<Rightarrow> vault_note \<Rightarrow> jsstring option \<Rightarrow> jsstring \<Rightarrow> 'b app_state
     \<Rightarrow> (js_error + blob) \<times> 'b app_state" where
  "fetch_final ev nt password path s =
     (let s1 = emit (DownloadCall path) s in
      case db_downloadFile (env_store ev) (env_platform ev) path (backend s1) of
        Inl e \<Rightarrow> (Inl e, s1)
      | Inr b \<Rightarrow>
          (case password of
             None \<Rightarrow> (Inr b, s1)
           | Some pw \<Rightarrow>
               if n_is_encrypted nt \<and> truthy pw
               then (decryptFile (env_crypto ev) b pw
                       (Some (mime_of (env_platform ev) (getFileNameFromPath path))),
                     emit (DecryptFileCall path) s1)
               else (Inr b, s1)))"

definition index_text ::
  "('k, 'b) env \<Rightarrow> vault_note \<Rightarrow> jsstring option \<Rightarrow> jsstring \<Rightarrow> 'b app_state
     \<Rightarrow> js_error option \<times> 'b app_state" where
  "index_text ev nt password path s =
     (case fetch_final ev nt password path s of
        (Inl e, s1) \<Rightarrow> (Some e, s1)
      | (Inr finalBlob, s1) \<Rightarrow>
          (None, s1\<lparr>attachmentTextCache :=
                      (attachmentTextCache s1)(path \<mapsto> dec_decode (blob_bytes finalBlob))\<rparr>))"

definition index_image ::
  "('k, 'b) env \<Rightarrow> vault_note \<Rightarrow> jsstring option \<Rightarrow> jsstring \<Rightarrow> 'b app_state
     \<Rightarrow> js_error option \<times> 'b app_state" where
  "index_image ev nt password path s =
     (case fetch_final ev nt password path s of
        (Inl e, s1) \<Rightarrow> (Some e, s1)
      | (Inr finalBlob, s1) \<Rightarrow>
          (None, s1\<lparr>attachmentImageCache :=
                      (attachmentImageCache s1)(path \<mapsto> readAsDataURL (env_platform ev) finalBlob)\<rparr>))"

text \<open>\<^verbatim>\<open>catch (e) { console.warn(e); }\<close>\<close>

definition catch_warn :: "js_error option \<times> 'b app_state \<Rightarrow> 'b app_state" where
  "catch_warn r = (case r of (None, s) \<Rightarrow> s | (Some e, s) \<Rightarrow> emit (Warn e) s)"

definition cached :: "(jsstring \<rightharpoonup> jsstring) \<Rightarrow> jsstring \<Rightarrow> bool" where
  "cached c path = truthy_opt (c path)"

definition index_path ::
  "('k, 'b) env \<Rightarrow> vault_note \<Rightarrow> jsstring option \<Rightarrow> (jsstring \<rightharpoonup> jsstring)
     \<Rightarrow> (jsstring \<rightharpoonup> jsstring) \<Rightarrow> jsstring \<Rightarrow> 'b app_state \<Rightarrow> 'b app_state" where
  "index_path ev nt password textSeen imageSeen path s =
     (let filename = getFileNameFromPath path in
      if isTextFile (env_platform ev) filename \<and> \<not> cached textSeen path
      then catch_warn (index_text ev nt password path s)
      else if isImageFile (env_platform ev) filename \<and> \<not> cached imageSeen path
      then catch_warn (index_image ev nt password path s)
      else s)"

definition indexAttachments ::
  "('k, 'b) env \<Rightarrow> vault_note \<Rightarrow> jsstring option \<Rightarrow> (jsstring \<rightharpoonup> jsstring)
     \<Rightarrow> (jsstring \<rightharpoonup> jsstring) \<Rightarrow> 'b app_state \<Rightarrow> 'b app_state" where
  "indexAttachments ev nt password textSeen imageSeen s =
     (case n_attachments nt of
        None \<Rightarrow> s
      | Some paths \<Rightarrow> fold (index_path ev nt password textSeen imageSeen) paths s)"

section \<open>Selecting and unlocking\<close>

definition handleSelectNote :: "('k, 'b) env \<Rightarrow> jsstring \<Rightarrow> 'b app_state \<Rightarrow> 'b app_state" where
  "handleSelectNote ev ident s =
     (let s1 = clearLockTimer (s\<lparr>decryptedCache := Map.empty\<rparr>);
          s2 = s1\<lparr>selectedNoteId := Some ident, isCreating := False, isEditing := False,
                  unlockPassword := [], showPassword := False, stagedFiles := [],
                  mobileView := js ''note''\<rparr>
      in case find (\<lambda>n. n_id n = ident) (vault_notes s) of
           None \<Rightarrow> s2
         | Some nt \<Rightarrow>
             if \<not> n_is_encrypted nt
             then indexAttachments ev nt None (attachmentTextCache s) (attachmentImageCache s) s2
             else s2)"

text \<open>What the lock timer runs when it is due.\<close>

definition lock_callback :: "'b app_state \<Rightarrow> 'b app_state" where
  "lock_callback s = s\<lparr>decryptedCache := Map.empty, unlockPassword := [], isEditing := False\<rparr>"

text \<open>
  The call of \<^verbatim>\<open>decryptData\<close> in \<^verbatim>\<open>handleUnlock\<close>: a note without nonce or
  salt hands \<^verbatim>\<open>undefined\<close> to \<^verbatim>\<open>fromHex\<close>, which throws a \<^verbatim>\<open>TypeError\<close>.
\<close>

definition decrypt_note :: "'k webcrypto \<Rightarrow> vault_note \<Rightarrow> jsstring \<Rightarrow> js_error + jsstring" where
  "decrypt_note wc nt password =
     (case n_salt nt of
        None \<Rightarrow> Inl TypeError
      | Some saltHex \<Rightarrow>
          (case n_iv nt of
             None \<Rightarrow> Inl TypeError
           | Some ivHex \<Rightarrow> decryptData wc (n_content nt) ivHex saltHex password))"

text \<open>
  \<^verbatim>\<open>handleUnlock\<close> runs in two parts. Up to its \<^verbatim>\<open>await\<close> it reads the selected
  note, the password and the indexer of the render in which it was created, and
  calls \<^verbatim>\<open>decryptData\<close>. What follows the \<^verbatim>\<open>await\<close> runs when the decryption has
  settled, on the state as it is by then: the cache is updated from its current
  value and the lock timer is read from the ref, but the note and the password
  are those captured before.
\<close>

record pending_unlock =
  pu_note :: vault_note
  pu_password :: jsstring
  pu_textSeen :: "jsstring \<rightharpoonup> jsstring"
  pu_imageSeen :: "jsstring \<rightharpoonup> jsstring"

definition unlock_begin :: "'b app_state \<Rightarrow> pending_unlock option \<times> 'b app_state" where
  "unlock_begin s =
     (case selectedNote s of
        None \<Rightarrow> (None, s)
      | Some nt \<Rightarrow>
          (Some \<lparr>pu_note = nt, pu_password = unlockPassword s,
                 pu_textSeen = attachmentTextCache s, pu_imageSeen = attachmentImageCache s\<rparr>,
           emit DecryptDataCall s))"

definition unlock_settle :: "('k, 'b) env \<Rightarrow> pending_unlock \<Rightarrow> 'b app_state \<Rightarrow> 'b app_state" where
  "unlock_settle ev p s =
     (case decrypt_note (env_crypto ev) (pu_note p) (pu_password p) of
        Inl err \<Rightarrow> emit (Alert (js ''Invalid key.'')) s
      | Inr decContent \<Rightarrow>
          (let s1 = s\<lparr>decryptedCache :=
                        (decryptedCache s)(n_id (pu_note p) \<mapsto>
                           \<lparr>p_title = n_title (pu_note p), p_content = decContent\<rparr>)\<rparr>;
               s2 = indexAttachments ev (pu_note p) (Some (pu_password p))
                      (pu_textSeen p) (pu_imageSeen p) s1;
               s3 = clearLockTimer s2;
               (h, s4) = setTimeout 60000 s3
           in s4\<lparr>lockTimerRef := Some h\<rparr>))"

text \<open>The handler with nothing running between its two parts.\<close>

definition handleUnlock :: "('k, 'b) env \<Rightarrow> 'b app_state \<Rightarrow> 'b app_state" where
  "handleUnlock ev s =
     (case unlock_begin s of
        (None, s1) \<Rightarrow> s1
      | (Some p, s1) \<Rightarrow> unlock_settle ev p s1)"

section \<open>Saving\<close>

text \<open>A \<^verbatim>\<open>File\<close> is uploaded as the blob it is.\<close>

definition blob_of_file :: "js_file \<Rightarrow> blob" where
  "blob_of_file f = \<lparr>blob_bytes = file_bytes f, blob_type = file_type f\<rparr>"

text \<open>One turn of the loop of \<^verbatim>\<open>processFileUploads\<close>: encrypt if asked, then upload.\<close>

definition prepare_upload ::
  "('k, 'b) env \<Rightarrow> js_file \<Rightarrow> bool \<Rightarrow> jsstring option \<Rightarrow> 'b app_state
     \<Rightarrow> (js_error + blob) \<times> 'b app_state" where
  "prepare_upload ev f isEncrypted password s =
     (if isEncrypted \<and> truthy_opt password
      then (case encryptFile (env_crypto ev) f (js_or password []) (generator s) of
              (r, g) \<Rightarrow> (r, emit (EncryptFileCall (file_name f)) (s\<lparr>generator := g\<rparr>)))
      else (Inr (blob_of_file f), s))"

definition upload_one ::
  "('k, 'b) env \<Rightarrow> js_file \<Rightarrow> bool \<Rightarrow> jsstring option \<Rightarrow> 'b app_state
     \<Rightarrow> (js_error + jsstring) \<times> 'b app_state" where
  "upload_one ev f isEncrypted password s =
     (case prepare_upload ev f isEncrypted password s of
        (Inl e, s1) \<Rightarrow> (Inl e, s1)
      | (Inr fileToUpload, s1) \<Rightarrow>
          (case db_uploadFile (env_store ev) (clock s1) fileToUpload (file_name f) (backend s1) of
             (r, b) \<Rightarrow> (r, emit (UploadCall (file_name f)) (s1\<lparr>backend := b\<rparr>))))"

fun processFileUploads ::
  "('k, 'b) env \<Rightarrow> js_file list \<Rightarrow> bool \<Rightarrow> jsstring option \<Rightarrow> 'b app_state
     \<Rightarrow> (js_error + jsstring list) \<times> 'b app_state" where
  "processFileUploads ev [] isEncrypted password s = (Inr [], s)"
| "processFileUploads ev (f # files) isEncrypted password s =
     (case upload_one ev f isEncrypted password s of
        (Inl e, s1) \<Rightarrow> (Inl e, s1)
      | (Inr path, s1) \<Rightarrow>
          (case processFileUploads ev files isEncrypted password s1 of
             (Inl e, s2) \<Rightarrow> (Inl e, s2)
           | (Inr paths, s2) \<Rightarrow> (Inr (path # paths), s2)))"

definition fetchNotes :: "('k, 'b) env \<Rightarrow> 'b app_state \<Rightarrow> 'b app_state" where
  "fetchNotes ev s =
     (if \<not> session s then s
      else (case db_getNotes (env_store ev) (env_platform ev) (clock s) (backend s) of
              Inl e \<Rightarrow> emit SelectCall s
            | Inr d \<Rightarrow> (emit SelectCall s)\<lparr>vault_notes := d\<rparr>))"

text \<open>\<^verbatim>\<open>s.slice(0, 16)\<close> on a string.\<close>

definition empty_new_note :: "platform \<Rightarrow> nat \<Rightarrow> new_note_form" where
  "empty_new_note p now =
     \<lparr>nn_title = [], nn_content = [], nn_encrypt = False, nn_password = [],
      nn_confirmPassword = [], nn_category = js ''Personal'',
      nn_date = take 16 (nowISOString p now)\<rparr>"

text \<open>The call of \<^verbatim>\<open>encryptData\<close> in a save, with no salt supplied.\<close>

definition encrypt_content ::
  "('k, 'b) env \<Rightarrow> jsstring \<Rightarrow> jsstring \<Rightarrow> 'b app_state \<Rightarrow> (js_error + payload) \<times> 'b app_state" where
  "encrypt_content ev content password s =
     (case encryptData (env_crypto ev) content password None (generator s) of
        (r, g) \<Rightarrow> (r, emit EncryptDataCall (s\<lparr>generator := g\<rparr>)))"

text \<open>The payload of a save: title, category and date as given, the content encrypted if asked.\<close>

definition build_payload ::
  "('k, 'b) env \<Rightarrow> bool \<Rightarrow> jsstring \<Rightarrow> jsstring \<Rightarrow> jsstring \<Rightarrow> jsstring \<Rightarrow> jsstring list
     \<Rightarrow> jsstring \<Rightarrow> 'b app_state \<Rightarrow> (js_error + note_payload) \<times> 'b app_state" where
  "build_payload ev encrypt title_text content password category_text paths createdAt s =
     (if encrypt
      then (case encrypt_content ev content password s of
              (Inl e, s1) \<Rightarrow> (Inl e, s1)
            | (Inr contentEnc, s1) \<Rightarrow>
                (Inr \<lparr>np_title = title_text,
                      np_content = ciphertext contentEnc,
                      np_is_encrypted = True,
                      np_category = category_text,
                      np_iv = Some (iv contentEnc),
                      np_salt = Some (salt contentEnc),
                      np_attachments = paths,
                      np_created_at = createdAt\<rparr>, s1))
      else (Inr \<lparr>np_title = title_text,
                 np_content = content,
                 np_is_encrypted = False,
                 np_category = category_text,
                 np_iv = None,
                 np_salt = None,
                 np_attachments = paths,
                 np_created_at = createdAt\<rparr>, s))"

definition insert_note ::
  "('k, 'b) env \<Rightarrow> note_payload \<Rightarrow> 'b app_state \<Rightarrow> js_error option \<times> 'b app_state" where
  "insert_note ev pl s =
     (case db_insertNote (env_store ev) (env_platform ev) (clock s) pl (backend s) of
        (r, b) \<Rightarrow> (r, emit (InsertCall pl) (s\<lparr>backend := b\<rparr>)))"

definition after_insert :: "('k, 'b) env \<Rightarrow> 'b app_state \<Rightarrow> 'b app_state" where
  "after_insert ev s =
     (fetchNotes ev
        (s\<lparr>newNote := empty_new_note (env_platform ev) (clock s), stagedFiles := [],
           isCreating := False, selectedCategory := js ''all'', searchQuery := []\<rparr>))
       \<lparr>mobileView := js ''list''\<rparr>"

text \<open>The body of the \<^verbatim>\<open>try\<close> of \<^verbatim>\<open>handleSaveNewNote\<close>.\<close>

definition save_new_body ::
  "('k, 'b) env \<Rightarrow> 'b app_state \<Rightarrow> js_error option \<times> 'b app_state" where
  "save_new_body ev s =
     (let nn = newNote s in
      case processFileUploads ev (stagedFiles s) (nn_encrypt nn) (Some (nn_password nn)) s of
        (Inl e, s1) \<Rightarrow> (Some e, s1)
      | (Inr attachmentPaths, s1) \<Rightarrow>
          (case toISOString (env_platform ev) (nn_date nn) of
             None \<Rightarrow> (Some RangeError, s1)
           | Some createdAt \<Rightarrow>
               (case build_payload ev (nn_encrypt nn) (nn_title nn) (nn_content nn)
                       (nn_password nn) (nn_category nn) attachmentPaths createdAt s1 of
                  (Inl e, s2) \<Rightarrow> (Some e, s2)
                | (Inr pl, s2) \<Rightarrow>
                    (case insert_note ev pl s2 of
                       (Some e, s3) \<Rightarrow> (Some e, s3)
                     | (None, s3) \<Rightarrow> (None, after_insert ev s3)))))"

text \<open>\<^verbatim>\<open>catch (err) { alert(prefix + err.message); } finally { setIsUploading(false); }\<close>\<close>

definition catch_alert ::
  "platform \<Rightarrow> string \<Rightarrow> js_error option \<times> 'b app_state \<Rightarrow> 'b app_state" where
  "catch_alert p prefix r =
     (case r of
        (None, s) \<Rightarrow> s\<lparr>isUploading := False\<rparr>
      | (Some err, s) \<Rightarrow> (emit (Alert (js prefix @ error_message p err)) s)\<lparr>isUploading := False\<rparr>)"

definition handleSaveNewNote :: "('k, 'b) env \<Rightarrow> 'b app_state \<Rightarrow> 'b app_state" where
  "handleSaveNewNote ev s =
     (let nn = newNote s in
      if \<not> truthy (trim (nn_title nn)) then emit (Alert (js ''Title required'')) s
      else if nn_encrypt nn \<and> \<not> truthy (nn_password nn)
      then emit (Alert (js ''Password required for encryption'')) s
      else if nn_encrypt nn \<and> nn_password nn \<noteq> nn_confirmPassword nn
      then emit (Alert (js ''Passwords do not match!'')) s
      else catch_alert (env_platform ev) ''Error saving: ''
             (save_new_body ev (s\<lparr>isUploading := True\<rparr>)))"

definition update_note ::
  "('k, 'b) env \<Rightarrow> jsstring \<Rightarrow> note_payload \<Rightarrow> 'b app_state \<Rightarrow> js_error option \<times> 'b app_state" where
  "update_note ev ident pl s =
     (case db_updateNote (env_store ev) ident pl (backend s) of
        (r, b) \<Rightarrow> (r, emit (UpdateCall ident pl) (s\<lparr>backend := b\<rparr>)))"

definition after_update :: "('k, 'b) env \<Rightarrow> 'b app_state \<Rightarrow> 'b app_state" where
  "after_update ev s = fetchNotes ev (s\<lparr>stagedFiles := [], isEditing := False\<rparr>)"

text \<open>
  The body of the \<^verbatim>\<open>try\<close> of \<^verbatim>\<open>handleUpdateNote\<close>. Its payload carries the
  flag of the form, and the attachments kept followed by the new ones.
\<close>

definition update_body ::
  "('k, 'b) env \<Rightarrow> vault_note \<Rightarrow> jsstring \<Rightarrow> 'b app_state \<Rightarrow> js_error option \<times> 'b app_state" where
  "update_body ev nt pwd s =
     (let ef = editForm s in
      case processFileUploads ev (stagedFiles s) (ef_is_encrypted ef) (Some pwd) s of
        (Inl e, s1) \<Rightarrow> (Some e, s1)
      | (Inr newAttachmentPaths, s1) \<Rightarrow>
          (case toISOString (env_platform ev) (ef_date ef) of
             None \<Rightarrow> (Some RangeError, s1)
           | Some createdAt \<Rightarrow>
               (case build_payload ev (ef_is_encrypted ef) (ef_title ef) (ef_content ef) pwd
                       (ef_category ef) (existingAttachments s @ newAttachmentPaths) createdAt s1 of
                  (Inl e, s2) \<Rightarrow> (Some e, s2)
                | (Inr pl, s2) \<Rightarrow>
                    (case update_note ev (n_id nt) pl s2 of
                       (Some e, s3) \<Rightarrow> (Some e, s3)
                     | (None, s3) \<Rightarrow> (None, after_update ev s3)))))"

definition handleUpdateNote :: "('k, 'b) env \<Rightarrow> 'b app_state \<Rightarrow> 'b app_state" where
  "handleUpdateNote ev s =
     (case selectedNote s of
        None \<Rightarrow> s
      | Some nt \<Rightarrow>
          (let pwd = (if truthy (ef_password (editForm s)) then ef_password (editForm s)
                      else unlockPassword s)
           in if ef_is_encrypted (editForm s) \<and> \<not> truthy pwd
              then emit (Alert (js ''Password required to save encrypted note'')) s
              else catch_alert (env_platform ev) ''Error updating: ''
                     (update_body ev nt pwd (s\<lparr>isUploading := True\<rparr>))))"

section \<open>The session as a machine\<close>

text \<open>
  The handlers of the interface that touch the state above, one event each. A
  handler runs to its end before the next event. Time passes only in \<open>Elapse\<close>,
  which then runs the callbacks of the timeouts that are due.
\<close>

datatype event =
    SelectNote jsstring
  | Unlock
  | Elapse nat
  | TypeUnlockPassword jsstring
  | NewClicked
  | DiscardNew
  | SaveNewNote
  | Back
  | EditClicked
  | CancelEdit
  | SetEditForm edit_form
  | SetNewNote new_note_form
  | SetStagedFiles "js_file list"
  | RemoveExisting jsstring
  | UpdateNote
  | DeleteNote
  | FetchNotes
  | SetSession bool

definition run_due :: "'b app_state \<Rightarrow> 'b app_state" where
  "run_due s =
     fold (\<lambda>t. lock_callback) (filter (\<lambda>t. snd t \<le> clock s) (timeouts s))
       (s\<lparr>timeouts := filter (\<lambda>t. \<not> snd t \<le> clock s) (timeouts s)\<rparr>)"

definition elapse :: "nat \<Rightarrow> 'b app_state \<Rightarrow> 'b app_state" where
  "elapse dt s = run_due (s\<lparr>clock := clock s + dt\<rparr>)"

definition newClicked :: "'b app_state \<Rightarrow> 'b app_state" where
  "newClicked s =
     s\<lparr>isCreating := True, selectedNoteId := None, stagedFiles := [],
       existingAttachments := [], mobileView := js ''note'', showPassword := False,
       newNote := (newNote s)\<lparr>nn_confirmPassword := []\<rparr>\<rparr>"

definition editClicked :: "'b app_state \<Rightarrow> 'b app_state" where
  "editClicked s =
     (case selectedNote s of
        None \<Rightarrow> s
      | Some nt \<Rightarrow>
          s\<lparr>editForm :=
              \<lparr>ef_title = js_or (map_option p_title (decryptedCache s (n_id nt))) (n_title nt),
               ef_content = js_or (map_option p_content (decryptedCache s (n_id nt))) (n_content nt),
               ef_category = n_category nt,
               ef_is_encrypted = n_is_encrypted nt,
               ef_password = [],
               ef_confirmPassword = [],
               ef_date = take 16 (n_created_at nt)\<rparr>,
            existingAttachments := (case n_attachments nt of None \<Rightarrow> [] | Some ps \<Rightarrow> ps),
            stagedFiles := [], isEditing := True, showPassword := False\<rparr>)"

definition deleteClicked :: "('k, 'b) env \<Rightarrow> 'b app_state \<Rightarrow> 'b app_state" where
  "deleteClicked ev s =
     (case selectedNote s of
        None \<Rightarrow> s
      | Some nt \<Rightarrow>
          (case db_deleteNote (env_store ev) (n_id nt) (backend s) of
             (Some e, b) \<Rightarrow> emit (DeleteCall (n_id nt)) (s\<lparr>backend := b\<rparr>)
           | (None, b) \<Rightarrow>
               (fetchNotes ev ((emit (DeleteCall (n_id nt)) (s\<lparr>backend := b\<rparr>))
                                 \<lparr>selectedNoteId := None\<rparr>))
                 \<lparr>mobileView := js ''list''\<rparr>))"

fun step :: "('k, 'b) env \<Rightarrow> event \<Rightarrow> 'b app_state \<Rightarrow> 'b app_state" where
  "step ev (SelectNote i) s = handleSelectNote ev i s"
| "step ev Unlock s = handleUnlock ev s"
| "step ev (Elapse dt) s = elapse dt s"
| "step ev (TypeUnlockPassword v) s = s\<lparr>unlockPassword := v\<rparr>"
| "step ev NewClicked s = newClicked s"
| "step ev DiscardNew s = s\<lparr>isCreating := False, mobileView := js ''list''\<rparr>"
| "step ev SaveNewNote s = handleSaveNewNote ev s"
| "step ev Back s = s\<lparr>selectedNoteId := None, mobileView := js ''list''\<rparr>"
| "step ev EditClicked s = editClicked s"
| "step ev CancelEdit s = s\<lparr>isEditing := False\<rparr>"
| "step ev (SetEditForm f) s = s\<lparr>editForm := f\<rparr>"
| "step ev (SetNewNote f) s = s\<lparr>newNote := f\<rparr>"
| "step ev (SetStagedFiles fs) s = s\<lparr>stagedFiles := fs\<rparr>"
| "step ev (RemoveExisting path) s =
     s\<lparr>existingAttachments := filter (\<lambda>p. p \<noteq> path) (existingAttachments s)\<rparr>"
| "step ev UpdateNote s = handleUpdateNote ev s"
| "step ev DeleteNote s = deleteClicked ev s"
| "step ev FetchNotes s = fetchNotes ev s"
| "step ev (SetSession v) s = (if v then fetchNotes ev (s\<lparr>session := True\<rparr>) else s\<lparr>session := False\<rparr>)"

definition run :: "('k, 'b) env \<Rightarrow> event list \<Rightarrow> 'b app_state \<Rightarrow> 'b app_state" where
  "run ev es s = fold (step ev) es s"

text \<open>The state in which the component is mounted.\<close>

definition initial :: "platform \<Rightarrow> 'b \<Rightarrow> rng \<Rightarrow> nat \<Rightarrow> 'b app_state" where
  "initial p b g t =
     \<lparr>session = False, vault_notes = [], selectedNoteId = None, isEditing = False,
      isCreating = False, unlockPassword = [], decryptedCache = Map.empty,
      attachmentTextCache = Map.empty, attachmentImageCache = Map.empty,
      lockTimerRef = None, showPassword = False,
      editForm = \<lparr>ef_title = [], ef_content = [], ef_category = js ''Personal'',
                  ef_is_encrypted = False, ef_password = [], ef_confirmPassword = [],
                  ef_date = []\<rparr>,
      newNote = empty_new_note p t, stagedFiles = [], existingAttachments = [],
      isUploading = False, selectedCategory = js ''all'', searchQuery = [],
      mobileView = js ''list'', timeouts = [], nextHandle = 1, clock = t, generator = g,
      backend = b, effects = []\<rparr>"

text \<open>An unlock that succeeds: a note is selected and its content decrypts.\<close>

definition unlock_succeeds :: "('k, 'b) env \<Rightarrow> 'b app_state \<Rightarrow> bool" where
  "unlock_succeeds ev s =
     (case selectedNote s of
        None \<Rightarrow> False
      | Some nt \<Rightarrow>
          (case decrypt_note (env_crypto ev) nt (unlockPassword s) of
             Inl e \<Rightarrow> False
           | Inr t \<Rightarrow> True))"

text \<open>
  The machine with unlocks in flight. Between the two parts of \<^verbatim>\<open>handleUnlock\<close>
  the interface stays live, so other events may run; the unlocks that await
  their decryption are kept beside the state and settle in any order.
\<close>

datatype async_event = Now event | UnlockBegin | UnlockSettle nat

fun async_step ::
  "('k, 'b) env \<Rightarrow> async_event \<Rightarrow> pending_unlock list \<times> 'b app_state
     \<Rightarrow> pending_unlock list \<times> 'b app_state" where
  "async_step ev (Now e) (ps, s) = (ps, step ev e s)"
| "async_step ev UnlockBegin (ps, s) =
     (case unlock_begin s of
        (None, s1) \<Rightarrow> (ps, s1)
      | (Some p, s1) \<Rightarrow> (ps @ [p], s1))"
| "async_step ev (UnlockSettle i) (ps, s) =
     (if i < length ps then (take i ps @ drop (Suc i) ps, unlock_settle ev (ps ! i) s)
      else (ps, s))"

definition async_run ::
  "('k, 'b) env \<Rightarrow> async_event list \<Rightarrow> pending_unlock list \<times> 'b app_state
     \<Rightarrow> pending_unlock list \<times> 'b app_state" where
  "async_run ev es m = fold (async_step ev) es m"

text \<open>The decryption of an unlock in flight succeeds.\<close>

definition settle_succeeds :: "('k, 'b) env \<Rightarrow> pending_unlock \<Rightarrow> bool" where
  "settle_succeeds ev p =
     (case decrypt_note (env_crypto ev) (pu_note p) (pu_password p) of
        Inl e \<Rightarrow> False
      | Inr t \<Rightarrow> True)"

text \<open>An event that completes an unlock with success.\<close>

fun completes_unlock ::
  "('k, 'b) env \<Rightarrow> async_event \<Rightarrow> pending_unlock list \<times> 'b app_state \<Rightarrow> bool" where
  "completes_unlock ev (Now e) (ps, s) = (e = Unlock \<and> unlock_succeeds ev s)"
| "completes_unlock ev UnlockBegin (ps, s) = False"
| "completes_unlock ev (UnlockSettle i) (ps, s) = (i < length ps \<and> settle_succeeds ev (ps ! i))"

text \<open>A run in which no unlock completes with success.\<close>

fun quiet ::
  "('k, 'b) env \<Rightarrow> async_event list \<Rightarrow> pending_unlock list \<times> 'b app_state \<Rightarrow> bool" where
  "quiet ev [] m = True"
| "quiet ev (e # es) m = (\<not> completes_unlock ev e m \<and> quiet ev es (async_step ev e m))"

text \<open>
  A run in which every unlock settles while the note it was started for is the
  selected one.
\<close>

fun settles_in_place ::
  "('k, 'b) env \<Rightarrow> async_event list \<Rightarrow> pending_unlock list \<times> 'b app_state \<Rightarrow> bool" where
  "settles_in_place ev [] m = True"
| "settles_in_place ev (UnlockSettle i # es) (ps, s) =
     ((i < length ps \<longrightarrow> selectedNoteId s = Some (n_id (pu_note (ps ! i))))
      \<and> settles_in_place ev es (async_step ev (UnlockSettle i) (ps, s)))"
| "settles_in_place ev (e # es) m = settles_in_place ev es (async_step ev e m)"

text \<open>At most one note has plaintext in the cache, and it is the selected one if any is.\<close>

definition one_plaintext :: "'b app_state \<Rightarrow> bool" where
  "one_plaintext s =
     (decryptedCache s = Map.empty
      \<or> (\<exists>i. dom (decryptedCache s) = {i}
              \<and> (selectedNoteId s = None \<or> selectedNoteId s = Some i)))"

text \<open>
  The part of the state that decides the session: the cache, the selection, the
  timeouts, the clock, the lock timer and the next handle.
\<close>

definition session_core ::
  "'b app_state \<Rightarrow> (jsstring \<rightharpoonup> plain) \<times> jsstring option \<times> (nat \<times> nat) list \<times> nat \<times> nat option \<times> nat" where
  "session_core s =
     (decryptedCache s, selectedNoteId s, timeouts s, clock s, lockTimerRef s, nextHandle s)"

text \<open>
  Plaintext is cached only while a timeout is pending that falls due by \<open>T\<close>.
\<close>

definition lock_pending :: "nat \<Rightarrow> 'b app_state \<Rightarrow> bool" where
  "lock_pending T s =
     (decryptedCache s = Map.empty
      \<or> (\<exists>h d. (h, d) \<in> set (timeouts s) \<and> clock s < d \<and> d \<le> T))"

text \<open>Every handle in use is below the next one to be given out.\<close>

definition handles_fresh :: "'b app_state \<Rightarrow> bool" where
  "handles_fresh s =
     ((\<forall>t \<in> set (timeouts s). fst t < nextHandle s)
      \<and> (\<forall>h. lockTimerRef s = Some h \<longrightarrow> h < nextHandle s))"

text \<open>The payloads handed to the store by the effects, in order.\<close>

fun inserts :: "effect list \<Rightarrow> note_payload list" where
  "inserts [] = []"
| "inserts (InsertCall pl # es) = pl # inserts es"
| "inserts (e # es) = inserts es"

fun updates :: "effect list \<Rightarrow> (jsstring \<times> note_payload) list" where
  "updates [] = []"
| "updates (UpdateCall i pl # es) = (i, pl) # updates es"
| "updates (e # es) = updates es"

definition writes :: "'b app_state \<Rightarrow> note_payload list \<times> (jsstring \<times> note_payload) list" where
  "writes s = (inserts (effects s), updates (effects s))"

section \<open>A small store and platform\<close>

text \<open>
  A backend with one user that keeps files and notes in tables and accepts every
  row, and a platform that leaves text as it is: used to run the handlers.
\<close>

record toy_backend =
  tb_files :: "(jsstring \<times> blob) list"
  tb_rows :: "db_row list"
  tb_notes :: "stored_row list"

definition toy_store :: "toy_backend supabase" where
  "toy_store =
     \<lparr>auth_getUser = (\<lambda>b. Some (js ''u1'')),
      notes_select = (\<lambda>b. Inr (tb_notes b)),
      notes_insert = (\<lambda>r b. (None, b\<lparr>tb_rows := tb_rows b @ [r]\<rparr>)),
      notes_update = (\<lambda>i u b. (None, b)),
      notes_delete = (\<lambda>i b. (Inr [], b)),
      storage_upload = (\<lambda>bucket path f b. (Inr path, b\<lparr>tb_files := tb_files b @ [(path, f)]\<rparr>)),
      storage_download =
        (\<lambda>bucket path b.
           case map_of (tb_files b) path of
             None \<Rightarrow> Inl (Error (js ''Object not found''))
           | Some f \<Rightarrow> Inr f)\<rparr>"

definition toy_platform :: platform where
  "toy_platform =
     \<lparr>toLowerCase = (\<lambda>s. s), readAsDataURL = (\<lambda>b. js ''data:''),
      toISOString = (\<lambda>s. if s = [] then None else Some s),
      nowISOString = (\<lambda>t. js ''2024-01-01T00:00:00.000Z''),
      builtin_message = (\<lambda>e. js ''error'')\<rparr>"

definition toy_env :: "(bytes, toy_backend) env" where
  "toy_env = \<lparr>env_crypto = toy_crypto, env_store = toy_store, env_platform = toy_platform\<rparr>"

text \<open>
  A note encrypted under the password \<open>pw\<close> with the small cipher, and a
  state in which it is selected and the password typed.
\<close>

definition demo_note :: vault_note where
  "demo_note =
     \<lparr>n_id = js ''a'', n_created_at = js ''2024-01-01T00:00'', n_title = js ''Diary'',
      n_content = toHex (aes_gcm_encrypt toy_crypto
                    (pbkdf2 toy_crypto (enc_encode (js ''pw'')) (map zero_rng [0..<16]))
                    (map zero_rng [16..<28]) (enc_encode (js ''hello''))),
      n_is_encrypted = True, n_category = js ''Personal'',
      n_attachments = Some [js ''u1/1_a.txt''],
      n_iv = Some (toHex (map zero_rng [16..<28])), n_title_iv = None,
      n_salt = Some (toHex (map zero_rng [0..<16])), n_user_id = js ''u1''\<rparr>"

text \<open>A second note under the same password, and the rows of the two as the table holds them.\<close>

definition demo_other :: vault_note where
  "demo_other =
     demo_note\<lparr>n_id := js ''b'', n_title := js ''Ledger'', n_attachments := None\<rparr>"

definition row_of :: "vault_note \<Rightarrow> stored_row" where
  "row_of n =
     \<lparr>sr_id = n_id n, sr_created_at = Some (n_created_at n), sr_title = Some (n_title n),
      sr_ciphertext = Some (n_content n), sr_content = None,
      sr_is_encrypted = n_is_encrypted n, sr_category = Some (n_category n),
      sr_attachments = n_attachments n, sr_iv = n_iv n, sr_title_iv = n_title_iv n,
      sr_salt = n_salt n, sr_user_id = n_user_id n\<rparr>"

definition demo_backend :: toy_backend where
  "demo_backend =
     \<lparr>tb_files = [(js ''u1/1_a.txt'', \<lparr>blob_bytes = [0x68, 0x69], blob_type = octet_stream\<rparr>)],
      tb_rows = [], tb_notes = [row_of demo_note, row_of demo_other]\<rparr>"

definition demo_state :: "toy_backend app_state" where
  "demo_state =
     (initial toy_platform demo_backend zero_rng 0)
       \<lparr>vault_notes := [demo_note], selectedNoteId := Some (js ''a''),
         unlockPassword := js ''pw''\<rparr>"

definition demo_unsaved :: "toy_backend app_state" where
  "demo_unsaved =
     demo_state
       \<lparr>newNote := \<lparr>nn_title = js ''Secret'', nn_content = js ''hello'', nn_encrypt = True,
                    nn_password = [], nn_confirmPassword = [], nn_category = js ''Personal'',
                    nn_date = js ''2024-01-01T00:00''\<rparr>,
         editForm := \<lparr>ef_title = js ''Diary'', ef_content = js ''hello'',
                     ef_category = js ''Personal'', ef_is_encrypted = True, ef_password = [],
                     ef_confirmPassword = [], ef_date = js ''2024-01-01T00:00''\<rparr>,
         unlockPassword := []\<rparr>"

text \<open>A state in which a new encrypted note is ready to be saved.\<close>

definition demo_new :: "toy_backend app_state" where
  "demo_new =
     demo_state
       \<lparr>newNote := \<lparr>nn_title = js ''Secret'', nn_content = js ''hello'', nn_encrypt = True,
                    nn_password = js ''pw'', nn_confirmPassword = js ''pw'',
                    nn_category = js ''Personal'', nn_date = js ''2024-01-01T00:00''\<rparr>\<rparr>"

text \<open>
  The attachment of the note as \<^verbatim>\<open>encryptFile\<close> packs it under the password
  \<open>pw\<close>, kept in the store, and a state in which no password has been typed.
\<close>

definition demo_sealed_file :: blob where
  "demo_sealed_file =
     \<lparr>blob_bytes = map zero_rng [0..<16] @ map zero_rng [16..<28] @
        aes_gcm_encrypt toy_crypto
          (pbkdf2 toy_crypto (enc_encode (js ''pw'')) (map zero_rng [0..<16]))
          (map zero_rng [16..<28]) [0x68, 0x69],
      blob_type = octet_stream\<rparr>"

definition demo_sealed :: "toy_backend app_state" where
  "demo_sealed =
     demo_state
       \<lparr>backend := \<lparr>tb_files = [(js ''u1/1_a.txt'', demo_sealed_file)], tb_rows = [],
                     tb_notes = [row_of demo_note]\<rparr>,
         unlockPassword := []\<rparr>"

text \<open>The vault signed in, the first note selected and the password typed.\<close>

definition demo_loaded :: "toy_backend app_state" where
  "demo_loaded =
     run toy_env [SetSession True, SelectNote (js ''a''), TypeUnlockPassword (js ''pw'')]
       (initial toy_platform demo_backend zero_rng 0)"


section \<open>The file cipher\<close>

lemma deriveKey_ok:
  "deriveKey wc (getPasswordKey p) s us =
     Inr \<lparr>material = pbkdf2 wc (enc_encode p) s, usages = us\<rparr>"
  by (simp add: deriveKey_def subtle_deriveKey_def getPasswordKey_def subtle_importKey_def)

lemma draw_salt_iv:
  "getRandomValues 16 g = (map g [0..<16], \<lambda>i. g (16 + i))"
  "getRandomValues 12 (\<lambda>i. g (16 + i)) = (map g [16..<28], \<lambda>i. g (28 + i))"
proof -
  show "getRandomValues 16 g = (map g [0..<16], \<lambda>i. g (16 + i))"
    by (simp add: getRandomValues_def)
  have "map (\<lambda>i. g (16 + i)) [0..<12] = map g (map (\<lambda>i. i + 16) [0..<12])"
    by (simp add: add.commute)
  also have "map (\<lambda>i. i + 16) [0..<12] = [16..<28]"
    using map_add_upt [of 16 12] by simp
  finally show "getRandomValues 12 (\<lambda>i. g (16 + i)) = (map g [16..<28], \<lambda>i. g (28 + i))"
    by (simp add: getRandomValues_def add.assoc [symmetric])
qed

lemma blob_type_octet_stream: "blob_type_of octet_stream = octet_stream"
  by (simp add: blob_type_of_def octet_stream_def js_def ascii_lower_def)

lemma encryptFile_eq:
  "encryptFile wc f p g =
     (Inr \<lparr>blob_bytes = map g [0..<16] @ map g [16..<28] @
              aes_gcm_encrypt wc (pbkdf2 wc (enc_encode p) (map g [0..<16]))
                (map g [16..<28]) (file_bytes f),
           blob_type = octet_stream\<rparr>, \<lambda>i. g (28 + i))"
  by (simp add: encryptFile_def draw_salt_iv deriveKey_ok subtle_encrypt_def Let_def new_Blob_def
        blob_type_octet_stream)

lemma decryptFile_eq:
  "decryptFile wc b p m =
     (case aes_gcm_decrypt wc (pbkdf2 wc (enc_encode p) (take 16 (blob_bytes b)))
             (take 12 (drop 16 (blob_bytes b))) (drop 28 (blob_bytes b)) of
        None \<Rightarrow> Inl OperationError
      | Some x \<Rightarrow> Inr \<lparr>blob_bytes = x, blob_type = blob_type_of (js_or m octet_stream)\<rparr>)"
  by (simp add: decryptFile_def buffer_slice_def deriveKey_ok subtle_decrypt_def Let_def drop_take
        new_Blob_def split: option.splits)

lemma layout_slices:
  assumes "length s = 16" and "length n = 12"
  shows "buffer_slice 0 16 (s @ n @ c) = s" and "buffer_slice 16 28 (s @ n @ c) = n"
    and "drop 28 (s @ n @ c) = c"
  using assms by (simp_all add: buffer_slice_def)

lemma toy_round_trip:
  "aes_gcm_decrypt toy_crypto k n (aes_gcm_encrypt toy_crypto k n x) = Some x"
  by (simp add: toy_crypto_def toy_decrypt_def toy_tag_def)

text \<open>
  C2. Where authenticated decryption inverts encryption under the same key and
  nonce, \<^verbatim>\<open>decryptFile\<close> of the blob packed by \<^verbatim>\<open>encryptFile\<close>, with the same
  password, succeeds and holds exactly the octets of the file, whatever the
  generator delivers for salt and nonce and whatever type is declared.
\<close>

theorem file_round_trip:
  assumes "\<And>k n x. aes_gcm_decrypt wc k n (aes_gcm_encrypt wc k n x) = Some x"
  shows "\<exists>packed out. fst (encryptFile wc f p g) = Inr packed
           \<and> decryptFile wc packed p m = Inr out \<and> blob_bytes out = file_bytes f"
  by (simp add: encryptFile_eq decryptFile_eq assms)

theorem file_round_trip_witness:
  "\<exists>packed out.
     fst (encryptFile toy_crypto
            \<lparr>file_name = js ''a.txt'', file_bytes = [1, 2, 3], file_type = js ''text/plain''\<rparr>
            (js ''pw'') count_rng) = Inr packed
     \<and> decryptFile toy_crypto packed (js ''pw'') None = Inr out \<and> blob_bytes out = [1, 2, 3]"
  using file_round_trip [of toy_crypto
      "\<lparr>file_name = js ''a.txt'', file_bytes = [1, 2, 3], file_type = js ''text/plain''\<rparr>"
      "js ''pw''" count_rng None, OF toy_round_trip]
  by simp

text \<open>
  C4. The blob packed by \<^verbatim>\<open>encryptFile\<close> is the sixteen octets of the salt, the
  twelve octets of the nonce and the ciphertext with its tag, in this order, so
  its length is 28 plus the length of the ciphertext; the slices
  \<open>[0, 16)\<close>, \<open>[16, 28)\<close> and \<open>[28, end)\<close> that \<^verbatim>\<open>decryptFile\<close> takes are salt,
  nonce and ciphertext, and \<^verbatim>\<open>decryptFile\<close> decrypts with these and the password
  alone, into a blob of the type asked for as \<^verbatim>\<open>Blob\<close> keeps it.
\<close>

theorem encryptFile_layout:
  "(let salt_b = map g [0..<16];
        iv_b = map g [16..<28];
        ct = aes_gcm_encrypt wc (pbkdf2 wc (enc_encode p) salt_b) iv_b (file_bytes f);
        packed = \<lparr>blob_bytes = salt_b @ iv_b @ ct, blob_type = octet_stream\<rparr>
    in fst (encryptFile wc f p g) = Inr packed
       \<and> length (blob_bytes packed) = 28 + length ct
       \<and> buffer_slice 0 16 (blob_bytes packed) = salt_b
       \<and> buffer_slice 16 28 (blob_bytes packed) = iv_b
       \<and> drop 28 (blob_bytes packed) = ct
       \<and> decryptFile wc packed p m =
           (case aes_gcm_decrypt wc (pbkdf2 wc (enc_encode p) salt_b) iv_b ct of
              None \<Rightarrow> Inl OperationError
            | Some x \<Rightarrow>
                Inr \<lparr>blob_bytes = x, blob_type = blob_type_of (js_or m octet_stream)\<rparr>))"
proof -
  have s: "length (map g [0..<16]) = 16" and n: "length (map g [16..<28]) = 12"
    by simp_all
  show ?thesis
    unfolding Let_def encryptFile_eq
    by (simp only: fst_conv blob.simps layout_slices [OF s n] length_append s n decryptFile_eq
          layout_slices [OF s n, unfolded buffer_slice_def drop_0] drop_take) simp
qed

lemma enc_p: "enc_encode [0x70] = [0x70]"
  by (simp add: enc_encode_def utf8_encode_cp_def is_lead_def is_trail_def)

theorem encryptFile_layout_witness:
  "fst (encryptFile toy_crypto
          \<lparr>file_name = js ''a.txt'', file_bytes = [1, 2, 3], file_type = js ''text/plain''\<rparr>
          [0x70] zero_rng) =
     Inr \<lparr>blob_bytes = replicate 16 0 @ [0, 0, 0, 0, 0, 0, 0, 0, 0, 0, 0, 0] @ [1, 2, 3] @ 0x70 # replicate 15 0,
          blob_type = octet_stream\<rparr>"
  using encryptFile_layout [of zero_rng toy_crypto "[0x70]"
      "\<lparr>file_name = js ''a.txt'', file_bytes = [1, 2, 3], file_type = js ''text/plain''\<rparr>" None,
      unfolded Let_def, THEN conjunct1]
  by (simp add: zero_rng_def toy_crypto_def toy_tag_def enc_p map_replicate_const)

section \<open>Hexadecimal text is read back\<close>

lemma nibble_cases:
  "d < 16 \<Longrightarrow> d \<in> {0, 1, 2, 3, 4, 5, 6, 7, 8, 9, 10, 11, 12, 13, 14, 15 :: nat}"
  by simp presburger

lemma hex_digit_props:
  assumes "d < 16"
  shows "is_hex_digit (hex_digit d)" and "\<not> is_line_terminator (hex_digit d)"
    and "\<not> is_white_space (hex_digit d)" and "hex_digit d \<noteq> 0x2D" and "hex_digit d \<noteq> 0x2B"
    and "hex_digit d \<noteq> 0x78" and "hex_digit d \<noteq> 0x58" and "hex_value (hex_digit d) = int d"
  using nibble_cases [OF assms]
  by (elim insertE emptyE; simp add: hex_digit_def is_hex_digit_def is_line_terminator_def
        is_white_space_def hex_value_def)+

lemma parseInt16_pair:
  assumes "h < 16" and "l < 16"
  shows "parseInt16 [hex_digit h, hex_digit l] = Some (16 * int h + int l)"
  using hex_digit_props [OF assms(1)] hex_digit_props [OF assms(2)]
  by (simp add: parseInt16_def strip_sign_def strip_prefix16_def)

lemma byte_hex:
  "padStart 2 48 (toString16 b) = [hex_digit (unat b div 16), hex_digit (unat b mod 16)]"
  by (simp add: padStart_def toString16_def hex_digit_def)

lemma byte_lt: "unat (b :: byte) < 256"
  using unsigned_less [of b, where 'a = nat] by simp

lemma unit_lt: "unat (c :: code_unit) < 65536"
  using unsigned_less [of c, where 'a = nat] by simp

lemma byte_nibbles: "unat (b :: byte) div 16 < 16" "unat b mod 16 < 16"
proof -
  have "unat b < 256" by (rule byte_lt)
  then show "unat b div 16 < 16" by simp
  show "unat b mod 16 < 16" by simp
qed

lemma toUint8_byte_hex: "toUint8 (parseInt16 (padStart 2 48 (toString16 b))) = b"
proof -
  have "16 * int (unat b div 16) + int (unat b mod 16) = int (unat b)"
    by (simp add: zdiv_int zmod_int)
  then show ?thesis
    by (simp add: byte_hex parseInt16_pair byte_nibbles toUint8_def)
qed

lemma match_chunks_toHex:
  "match_chunks (toHex bs) = map (\<lambda>b. padStart 2 48 (toString16 b)) bs"
proof (induction bs)
  case Nil
  then show ?case by (simp add: toHex_def)
next
  case (Cons b bs)
  have "toHex (b # bs) = hex_digit (unat b div 16) # hex_digit (unat b mod 16) # toHex bs"
    by (simp add: toHex_def byte_hex)
  then show ?case
    using Cons hex_digit_props(2) [OF byte_nibbles(1) [of b]]
      hex_digit_props(2) [OF byte_nibbles(2) [of b]]
    by (simp add: byte_hex)
qed

lemma fromHex_toHex: "bs \<noteq> [] \<Longrightarrow> fromHex (toHex bs) = Inr bs"
  by (cases bs) (simp_all add: fromHex_def js_match_def match_chunks_toHex toUint8_byte_hex
      map_idI)

section \<open>UTF-8 is read back\<close>

lemma byte_of_nat: "n < 256 \<Longrightarrow> unat (of_nat n :: byte) = n"
  by (rule of_nat_inverse [OF refl]) simp

lemma add_mod_digit: "a < m \<Longrightarrow> (k * m + a) mod m = (a::nat)"
  by simp

lemma div4096: "(cp::nat) div 4096 = cp div 64 div 64"
  using div_mult2_eq [of cp 64 64] by simp

lemma div262144: "(cp::nat) div 262144 = cp div 64 div 64 div 64"
  using div_mult2_eq [of cp 4096 64] by (simp add: div4096)

lemma decode1:
  assumes "cp < 0x80"
  shows "utf8_run utf8_init (map unat (utf8_encode_cp cp) @ rest) = cp # utf8_run utf8_init rest"
proof -
  have enc: "map unat (utf8_encode_cp cp) = [cp]"
    using assms by (simp add: utf8_encode_cp_def byte_of_nat)
  show ?thesis
    unfolding enc using assms by (simp add: utf8_step_def utf8_lead_def utf8_init_def)
qed

lemma decode2:
  assumes "0x80 \<le> cp" and "cp < 0x800"
  shows "utf8_run utf8_init (map unat (utf8_encode_cp cp) @ rest) = cp # utf8_run utf8_init rest"
proof -
  define a where "a = cp div 64"
  define b where "b = cp mod 64"
  define x0 where "x0 = 0xC0 + a"
  define x1 where "x1 = 0x80 + b"
  have cp: "a * 64 + b = cp" and b: "b < 64"
    by (simp_all add: a_def b_def)
  have a: "2 \<le> a" "a < 32"
    using assms cp b by linarith+
  have x: "x0 < 256" "x1 < 256" "0xC2 \<le> x0" "x0 \<le> 0xDF" "0x80 \<le> x1" "x1 \<le> 0xBF"
    using a b by (simp_all add: x0_def x1_def)
  have "utf8_encode_cp cp = [of_nat x0, of_nat x1]"
    using assms unfolding utf8_encode_cp_def x0_def x1_def a_def b_def by simp
  then have enc: "map unat (utf8_encode_cp cp) = [x0, x1]"
    using x by (simp add: byte_of_nat)
  have m: "x0 mod 32 = a" "x1 mod 64 = b"
    using add_mod_digit [of a 32 6] add_mod_digit [of b 64 2] a b
    by (simp_all add: x0_def x1_def)
  show ?thesis
    unfolding enc using x
    by (simp add: utf8_step_def utf8_lead_def utf8_init_def m cp)
qed


lemma horner3:
  "q = a * 64 + b \<Longrightarrow> cp = q * 64 + c \<Longrightarrow> a * 4096 + b * 64 + c = (cp::nat)"
  by simp

lemma horner4:
  "r = a * 64 + b \<Longrightarrow> q = r * 64 + c \<Longrightarrow> cp = q * 64 + d
   \<Longrightarrow> a * 262144 + b * 4096 + c * 64 + d = (cp::nat)"
  by simp

lemma digits3:
  "(cp::nat) div 64 div 64 * 4096 + cp div 64 mod 64 * 64 + cp mod 64 = cp"
  by (rule horner3 [of "cp div 64"]) simp_all

lemma digits4:
  "(cp::nat) div 64 div 64 div 64 * 262144 + cp div 64 div 64 mod 64 * 4096
     + cp div 64 mod 64 * 64 + cp mod 64 = cp"
  by (rule horner4 [of "cp div 64 div 64" _ _ "cp div 64"]) simp_all

lemma bounds3:
  fixes cp a b c :: nat
  assumes "0x800 \<le> cp" and "cp < 0x10000" and "\<not> (0xD800 \<le> cp \<and> cp \<le> 0xDFFF)"
    and cp: "a * 4096 + b * 64 + c = cp" and b: "b < 64" and c: "c < 64"
  shows "a < 16" and "a = 0 \<Longrightarrow> 32 \<le> b" and "a = 13 \<Longrightarrow> b < 32"
proof -
  show "a < 16" using assms(2) cp by linarith
  show "32 \<le> b" if "a = 0" using that assms(1) cp c by linarith
  show "b < 32" if "a = 13"
  proof -
    have "cp \<le> 0xDFFF" using that cp b c by linarith
    with assms(3) have "cp < 0xD800" by linarith
    with that cp show ?thesis by linarith
  qed
qed

lemma bounds4:
  fixes cp a b c d :: nat
  assumes "0x10000 \<le> cp" and "cp < 0x110000"
    and cp: "a * 262144 + b * 4096 + c * 64 + d = cp" and b: "b < 64" and c: "c < 64"
    and d: "d < 64"
  shows "a < 5" and "a = 0 \<Longrightarrow> 16 \<le> b" and "a = 4 \<Longrightarrow> b < 16"
proof -
  show "a < 5" using assms(2) cp by linarith
  show "16 \<le> b" if "a = 0" using that assms(1) cp c d by linarith
  show "b < 16" if "a = 4" using that assms(2) cp by linarith
qed

lemma decode3:
  assumes "0x800 \<le> cp" and "cp < 0x10000" and "\<not> (0xD800 \<le> cp \<and> cp \<le> 0xDFFF)"
  shows "utf8_run utf8_init (map unat (utf8_encode_cp cp) @ rest) = cp # utf8_run utf8_init rest"
proof -
  define a where "a = cp div 64 div 64"
  define b where "b = cp div 64 mod 64"
  define c where "c = cp mod 64"
  define x0 where "x0 = 0xE0 + a"
  define x1 where "x1 = 0x80 + b"
  define x2 where "x2 = 0x80 + c"
  have cp: "a * 4096 + b * 64 + c = cp"
    unfolding a_def b_def c_def by (rule digits3)
  have b: "b < 64" and c: "c < 64"
    by (simp_all add: b_def c_def)
  note a = bounds3 [OF assms cp b c]
  have x: "x0 < 256" "x1 < 256" "x2 < 256" "0xE0 \<le> x0" "x0 \<le> 0xEF" "0x80 \<le> x1" "x1 \<le> 0xBF"
    "0x80 \<le> x2" "x2 \<le> 0xBF" "x0 = 0xE0 \<Longrightarrow> 0xA0 \<le> x1" "x0 = 0xED \<Longrightarrow> x1 \<le> 0x9F"
    using a b c by (simp_all add: x0_def x1_def x2_def)
  have "utf8_encode_cp cp = [of_nat x0, of_nat x1, of_nat x2]"
    using assms unfolding utf8_encode_cp_def x0_def x1_def x2_def a_def b_def c_def div4096
    by simp
  then have enc: "map unat (utf8_encode_cp cp) = [x0, x1, x2]"
    using x by (simp add: byte_of_nat)
  have m: "x0 mod 16 = a" "x1 mod 64 = b" "x2 mod 64 = c"
    using add_mod_digit [of a 16 14] add_mod_digit [of b 64 2] add_mod_digit [of c 64 2] a b c
    by (simp_all add: x0_def x1_def x2_def)
  have out: "(a * 64 + b) * 64 + c = cp"
    using cp by simp
  show ?thesis
    unfolding enc using x cp
    by (auto simp: utf8_step_def utf8_lead_def utf8_init_def m out)
qed

lemma decode4:
  assumes "0x10000 \<le> cp" and "cp < 0x110000"
  shows "utf8_run utf8_init (map unat (utf8_encode_cp cp) @ rest) = cp # utf8_run utf8_init rest"
proof -
  define a where "a = cp div 64 div 64 div 64"
  define b where "b = cp div 64 div 64 mod 64"
  define c where "c = cp div 64 mod 64"
  define d where "d = cp mod 64"
  define x0 where "x0 = 0xF0 + a"
  define x1 where "x1 = 0x80 + b"
  define x2 where "x2 = 0x80 + c"
  define x3 where "x3 = 0x80 + d"
  have cp: "a * 262144 + b * 4096 + c * 64 + d = cp"
    unfolding a_def b_def c_def d_def by (rule digits4)
  have b: "b < 64" and c: "c < 64" and d: "d < 64"
    by (simp_all add: b_def c_def d_def)
  note a = bounds4 [OF assms cp b c d]
  have x: "x0 < 256" "x1 < 256" "x2 < 256" "x3 < 256" "0xF0 \<le> x0" "x0 \<le> 0xF4"
    "0x80 \<le> x1" "x1 \<le> 0xBF" "0x80 \<le> x2" "x2 \<le> 0xBF" "0x80 \<le> x3" "x3 \<le> 0xBF"
    "x0 = 0xF0 \<Longrightarrow> 0x90 \<le> x1" "x0 = 0xF4 \<Longrightarrow> x1 \<le> 0x8F"
    using a b c d by (simp_all add: x0_def x1_def x2_def x3_def)
  have "utf8_encode_cp cp = [of_nat x0, of_nat x1, of_nat x2, of_nat x3]"
    using assms
    unfolding utf8_encode_cp_def x0_def x1_def x2_def x3_def a_def b_def c_def d_def div4096
      div262144
    by simp
  then have enc: "map unat (utf8_encode_cp cp) = [x0, x1, x2, x3]"
    using x by (simp add: byte_of_nat)
  have m: "x0 mod 8 = a" "x1 mod 64 = b" "x2 mod 64 = c" "x3 mod 64 = d"
    using add_mod_digit [of a 8 30] add_mod_digit [of b 64 2] add_mod_digit [of c 64 2]
      add_mod_digit [of d 64 2] a b c d
    by (simp_all add: x0_def x1_def x2_def x3_def)
  have out: "((a * 64 + b) * 64 + c) * 64 + d = cp"
    using cp by simp
  show ?thesis
    unfolding enc using x cp
    by (auto simp: utf8_step_def utf8_lead_def utf8_init_def m out)
qed

lemma decode_scalar:
  assumes "is_scalar cp"
  shows "utf8_run utf8_init (map unat (utf8_encode_cp cp) @ rest) = cp # utf8_run utf8_init rest"
proof -
  consider "cp < 0x80" | "0x80 \<le> cp" "cp < 0x800" | "0x800 \<le> cp" "cp < 0x10000"
    | "0x10000 \<le> cp"
    by linarith
  then show ?thesis
  proof cases
    case 1 then show ?thesis by (rule decode1)
  next
    case 2 then show ?thesis by (rule decode2)
  next
    case 3 with assms show ?thesis by (intro decode3) (simp_all add: is_scalar_def)
  next
    case 4 with assms show ?thesis by (intro decode4) (simp_all add: is_scalar_def)
  qed
qed

lemma decode_scalars:
  "list_all is_scalar cps \<Longrightarrow>
   utf8_run utf8_init (map unat (concat (map utf8_encode_cp cps))) = cps"
proof (induction cps)
  case Nil
  show ?case by (simp add: utf8_init_def)
next
  case (Cons cp cps)
  then show ?case by (simp add: decode_scalar)
qed


lemma lead_nat: "is_lead c \<longleftrightarrow> 0xD800 \<le> unat c \<and> unat c \<le> 0xDBFF"
  by (simp add: is_lead_def word_le_nat_alt)

lemma trail_nat: "is_trail c \<longleftrightarrow> 0xDC00 \<le> unat c \<and> unat c \<le> 0xDFFF"
  by (simp add: is_trail_def word_le_nat_alt)

lemma scalar_unit: "\<not> is_lead c \<Longrightarrow> \<not> is_trail c \<Longrightarrow> is_scalar (unat c)"
  using unit_lt [of c] by (auto simp: lead_nat trail_nat is_scalar_def)

lemma scalar_pair: "is_lead c \<Longrightarrow> is_trail d \<Longrightarrow> is_scalar (pair_value c d)"
  by (auto simp: lead_nat trail_nat is_scalar_def pair_value_def)

lemma scalar_replacement: "is_scalar 0xFFFD"
  by (simp add: is_scalar_def)

lemma to_scalars_scalar: "list_all is_scalar (to_scalars s)"
  by (induction s rule: to_scalars.induct)
    (simp_all add: scalar_unit scalar_pair scalar_replacement)

lemma from_scalar_unit: "from_scalar (unat c) = [c]"
  using unit_lt [of c] by (simp add: from_scalar_def)

lemma from_scalar_pair:
  assumes "is_lead c" and "is_trail d"
  shows "from_scalar (pair_value c d) = [c, d]"
proof -
  define h where "h = unat c - 0xD800"
  define l where "l = unat d - 0xDC00"
  have c: "unat c = 0xD800 + h" and d: "unat d = 0xDC00 + l" and l: "l < 0x400"
    using assms by (auto simp: lead_nat trail_nat h_def l_def)
  have pv: "pair_value c d = 0x10000 + (h * 0x400 + l)"
    by (simp add: pair_value_def h_def l_def)
  have "(h * 0x400 + l) div 0x400 = h" and "(h * 0x400 + l) mod 0x400 = l"
    using l by simp_all
  then have "from_scalar (pair_value c d) = [of_nat (unat c), of_nat (unat d)]"
    unfolding pv from_scalar_def c d by simp
  then show ?thesis by simp
qed

lemma from_to_scalars:
  "well_formed s \<Longrightarrow> concat (map from_scalar (to_scalars s)) = s"
  by (induction s rule: to_scalars.induct)
    (simp_all add: from_scalar_unit from_scalar_pair split: if_splits)


lemma encode_bytes:
  assumes "cp < 0x110000"
  shows "map unat (utf8_encode_cp cp) =
    (if cp < 0x80 then [cp]
     else if cp < 0x800 then [0xC0 + cp div 64, 0x80 + cp mod 64]
     else if cp < 0x10000 then
       [0xE0 + cp div 64 div 64, 0x80 + cp div 64 mod 64, 0x80 + cp mod 64]
     else [0xF0 + cp div 64 div 64 div 64, 0x80 + cp div 64 div 64 mod 64,
           0x80 + cp div 64 mod 64, 0x80 + cp mod 64])"
proof -
  have m: "0x80 + cp mod 64 < 256" "0x80 + cp div 64 mod 64 < 256"
    "0x80 + cp div 64 div 64 mod 64 < 256"
    by simp_all
  have d1: "0xC0 + cp div 64 < 256" if "cp < 0x800"
    using that by simp
  have d2: "0xE0 + cp div 64 div 64 < 256" if "cp < 0x10000"
    using that by simp
  have d3: "0xF0 + cp div 64 div 64 div 64 < 256"
    using assms by simp
  show ?thesis
    unfolding utf8_encode_cp_def div4096 div262144
    by (simp only: list.map byte_of_nat m d1 d2 d3 if_distrib [of "map unat"] cong: if_cong)
qed

lemma no_bom_bytes:
  assumes "is_scalar cp" and "cp \<noteq> 0xFEFF"
  shows "take 3 (map unat (utf8_encode_cp cp) @ rest) \<noteq> [0xEF, 0xBB, 0xBF]"
proof
  assume bom: "take 3 (map unat (utf8_encode_cp cp) @ rest) = [0xEF, 0xBB, 0xBF]"
  have lt: "cp < 0x110000"
    using assms(1) by (simp add: is_scalar_def)
  consider "cp < 0x80" | "0x80 \<le> cp" "cp < 0x800" | "0x800 \<le> cp" "cp < 0x10000"
    | "0x10000 \<le> cp"
    by linarith
  then show False
  proof cases
    case 1
    with bom show False by (simp add: encode_bytes [OF lt])
  next
    case 2
    then have "cp div 64 < 32" by simp
    with bom 2 show False by (simp add: encode_bytes [OF lt])
  next
    case 3
    with bom have "cp div 64 div 64 = 15" "cp div 64 mod 64 = 59" "cp mod 64 = 63"
      by (simp_all add: encode_bytes [OF lt])
    with digits3 [of cp] have "cp = 0xFEFF" by simp
    with assms(2) show False by simp
  next
    case 4
    with bom show False by (simp add: encode_bytes [OF lt])
  qed
qed

lemma strip_bom_id:
  assumes "take 3 (map unat bs) \<noteq> [0xEF, 0xBB, 0xBF]"
  shows "strip_bom bs = bs"
proof -
  have "take 3 bs \<noteq> [0xEF, 0xBB, 0xBF]"
  proof
    assume "take 3 bs = [0xEF, 0xBB, 0xBF]"
    then have "map unat (take 3 bs) = map unat [0xEF, 0xBB, 0xBF :: byte]" by simp
    then have "take 3 (map unat bs) = [0xEF, 0xBB, 0xBF]" by (simp add: take_map)
    with assms show False by simp
  qed
  then show ?thesis by (simp add: strip_bom_def)
qed

lemma first_scalar:
  assumes "\<not> starts_with_bom s"
  shows "to_scalars s = [] \<or> (\<exists>cp cps. to_scalars s = cp # cps \<and> cp \<noteq> 0xFEFF)"
proof (cases s rule: to_scalars.cases)
  case 1
  then show ?thesis by simp
next
  case (2 c)
  with assms have "unat c \<noteq> unat (0xFEFF :: code_unit)"
    by (simp add: starts_with_bom_def word_unat_eq_iff)
  with 2 show ?thesis by simp
next
  case (3 c d r)
  with assms have "unat c \<noteq> unat (0xFEFF :: code_unit)"
    by (simp add: starts_with_bom_def word_unat_eq_iff)
  with 3 show ?thesis by (simp add: pair_value_def)
qed

lemma strip_bom_encode:
  assumes "\<not> starts_with_bom s"
  shows "strip_bom (enc_encode s) = enc_encode s"
proof -
  from first_scalar [OF assms] show ?thesis
  proof
    assume "to_scalars s = []"
    then show ?thesis by (simp add: enc_encode_def strip_bom_def)
  next
    assume "\<exists>cp cps. to_scalars s = cp # cps \<and> cp \<noteq> 0xFEFF"
    then obtain cp cps where s: "to_scalars s = cp # cps" and cp: "cp \<noteq> 0xFEFF"
      by blast
    have "is_scalar cp"
      using to_scalars_scalar [of s] s by simp
    from no_bom_bytes [OF this cp]
    have "take 3 (map unat (enc_encode s)) \<noteq> [0xEF, 0xBB, 0xBF]"
      by (simp add: enc_encode_def s)
    then show ?thesis by (rule strip_bom_id)
  qed
qed

lemma decode_encode:
  "dec_decode (enc_encode s) =
     concat (map from_scalar (to_scalars (if starts_with_bom s then tl s else s)))"
  if "\<not> starts_with_bom s" for s
  using that
  by (simp add: dec_decode_def strip_bom_encode, simp add: enc_encode_def decode_scalars to_scalars_scalar)

lemma text_round_trip:
  assumes "well_formed s" and "\<not> starts_with_bom s"
  shows "dec_decode (enc_encode s) = s"
  using assms by (simp add: decode_encode from_to_scalars)

section \<open>The text cipher\<close>

lemma draw_iv_only: "getRandomValues 12 g = (map g [0..<12], \<lambda>i. g (12 + i))"
  by (simp add: getRandomValues_def)

lemma encryptData_fresh:
  assumes "\<not> truthy_opt providedSalt"
  shows "encryptData wc t p providedSalt g =
     (Inr \<lparr>ciphertext = toHex (aes_gcm_encrypt wc (pbkdf2 wc (enc_encode p) (map g [0..<16]))
                              (map g [16..<28]) (enc_encode t)),
           iv = toHex (map g [16..<28]), salt = toHex (map g [0..<16])\<rparr>,
      \<lambda>i. g (28 + i))"
  using assms
  by (simp add: encryptData_def truthy_opt_def draw_salt_iv deriveKey_ok subtle_encrypt_def
        split: option.splits)

lemma encryptData_supplied:
  assumes "truthy h" and "fromHex h = Inr s"
  shows "encryptData wc t p (Some h) g =
     (Inr \<lparr>ciphertext = toHex (aes_gcm_encrypt wc (pbkdf2 wc (enc_encode p) s)
                              (map g [0..<12]) (enc_encode t)),
           iv = toHex (map g [0..<12]), salt = toHex s\<rparr>,
      \<lambda>i. g (12 + i))"
  using assms
  by (simp add: encryptData_def draw_iv_only deriveKey_ok subtle_encrypt_def)

lemma encryptData_bad_salt:
  assumes "truthy h" and "fromHex h = Inl e"
  shows "encryptData wc t p (Some h) g = (Inl e, g)"
  using assms by (simp add: encryptData_def)

lemma decryptData_eq:
  assumes "fromHex sh = Inr s" and "fromHex ih = Inr n" and "fromHex ch = Inr d"
  shows "decryptData wc ch ih sh p =
     (case aes_gcm_decrypt wc (pbkdf2 wc (enc_encode p) s) n d of
        None \<Rightarrow> Inl OperationError
      | Some x \<Rightarrow> Inr (dec_decode x))"
  using assms
  by (simp add: decryptData_def deriveKey_ok subtle_decrypt_def split: option.splits)

lemma fromHex_nonempty: "fromHex h = Inr s \<Longrightarrow> s \<noteq> []"
  by (auto simp: fromHex_def js_match_def split: list.splits)

lemma encrypt_then_decrypt_eq:
  assumes "aes_gcm_encrypt wc (pbkdf2 wc (enc_encode p1) (map g [0..<16])) (map g [16..<28])
             (enc_encode t) \<noteq> []"
  shows "encrypt_then_decrypt wc t p1 p2 g =
     (case aes_gcm_decrypt wc (pbkdf2 wc (enc_encode p2) (map g [0..<16])) (map g [16..<28])
             (aes_gcm_encrypt wc (pbkdf2 wc (enc_encode p1) (map g [0..<16])) (map g [16..<28])
                (enc_encode t)) of
        None \<Rightarrow> Inl OperationError
      | Some x \<Rightarrow> Inr (dec_decode x))"
proof -
  have s: "map g [0..<16] \<noteq> []" and n: "map g [16..<28] \<noteq> []"
    by simp_all
  show ?thesis
    unfolding encrypt_then_decrypt_def
    by (simp only: encryptData_fresh truthy_opt_def option.case fst_conv sum.case payload.simps
          decryptData_eq [OF fromHex_toHex [OF s] fromHex_toHex [OF n] fromHex_toHex [OF assms]]
          not_False_eq_True)
qed


lemma toy_tagged: "aes_gcm_encrypt toy_crypto k n x \<noteq> []"
  by (simp add: toy_crypto_def toy_tag_def)

lemma encrypt_then_decrypt_same:
  assumes "\<And>k n x. aes_gcm_decrypt wc k n (aes_gcm_encrypt wc k n x) = Some x"
    and "\<And>k n x. aes_gcm_encrypt wc k n x \<noteq> []"
  shows "encrypt_then_decrypt wc t p p g = Inr (dec_decode (enc_encode t))"
  by (simp add: encrypt_then_decrypt_eq assms)

text \<open>
  C1 (amended). Where authenticated decryption inverts encryption under the same
  key and nonce and the ciphertext carries its tag, for every string \<open>t\<close> that
  has no unpaired surrogate and does not begin with U+FEFF, every password and
  every state of the generator, \<^verbatim>\<open>decryptData\<close> applied to the three hex fields
  of the payload of \<^verbatim>\<open>encryptData(t, p)\<close> and the same password returns exactly
  \<open>t\<close>.
\<close>

theorem text_round_trip_wf:
  assumes "\<And>k n x. aes_gcm_decrypt wc k n (aes_gcm_encrypt wc k n x) = Some x"
    and "\<And>k n x. aes_gcm_encrypt wc k n x \<noteq> []"
    and "well_formed t" and "\<not> starts_with_bom t"
  shows "\<exists>pl. fst (encryptData wc t p None g) = Inr pl
           \<and> decryptData wc (ciphertext pl) (iv pl) (salt pl) p = Inr t"
proof -
  have "encrypt_then_decrypt wc t p p g = Inr t"
    using assms by (simp add: encrypt_then_decrypt_same text_round_trip)
  then show ?thesis
    by (auto simp: encrypt_then_decrypt_def split: sum.splits)
qed

lemma js_hello: "well_formed (js ''hello world'')" "\<not> starts_with_bom (js ''hello world'')"
  by (simp_all add: js_def starts_with_bom_def is_lead_def is_trail_def)

theorem text_round_trip_wf_witness:
  "\<exists>pl. fst (encryptData toy_crypto (js ''hello world'') (js ''correct-horse'') None count_rng) = Inr pl
     \<and> decryptData toy_crypto (ciphertext pl) (iv pl) (salt pl) (js ''correct-horse'')
         = Inr (js ''hello world'')"
  by (rule text_round_trip_wf [OF toy_round_trip toy_tagged js_hello])

text \<open>
  For every string the result is \<open>dec_decode (enc_encode t)\<close>: the decoder
  drops a leading U+FEFF as a byte order mark, and the encoder writes U+FFFD for
  an unpaired surrogate. So the round trip fails on the strings below.
\<close>

lemma bom_lost: "dec_decode (enc_encode [0xFEFF, 0x68, 0x69]) = [0x68, 0x69]"
  by (simp add: dec_decode_def enc_encode_def utf8_encode_cp_def strip_bom_def is_lead_def
        is_trail_def utf8_step_def utf8_lead_def utf8_init_def from_scalar_def)

lemma surrogate_lost: "dec_decode (enc_encode [0xD800]) = [0xFFFD]"
  by (simp add: dec_decode_def enc_encode_def utf8_encode_cp_def strip_bom_def is_lead_def
        is_trail_def utf8_step_def utf8_lead_def utf8_init_def from_scalar_def)

theorem text_round_trip_counterexample:
  "encrypt_then_decrypt toy_crypto [0xFEFF, 0x68, 0x69] (js ''pw'') (js ''pw'') zero_rng
     = Inr [0x68, 0x69]
   \<and> encrypt_then_decrypt toy_crypto [0xD800] (js ''pw'') (js ''pw'') zero_rng = Inr [0xFFFD]"
  by (simp add: encrypt_then_decrypt_same [OF toy_round_trip toy_tagged] bom_lost surrogate_lost)

lemma match_chunks_none: "match_chunks h = [] \<longleftrightarrow> list_all is_line_terminator h"
  by (induction h rule: match_chunks.induct) simp_all

lemma fromHex_cases:
  "fromHex h =
     (if list_all is_line_terminator h then Inl TypeError
      else Inr (map (\<lambda>byte. toUint8 (parseInt16 byte)) (match_chunks h)))"
  using match_chunks_none [of h]
  by (auto simp: fromHex_def js_match_def split: list.splits)

text \<open>
  C8 (amended). With no salt supplied (or the empty string), \<^verbatim>\<open>encryptData\<close>
  draws sixteen octets for the salt and then twelve for the nonce, and returns
  both in hex. With a non-empty salt supplied that is nothing but line
  terminators, \<^verbatim>\<open>fromHex\<close> throws a \<^verbatim>\<open>TypeError\<close> and nothing is drawn. With
  any other non-empty salt supplied, no salt is drawn, the octets that
  \<^verbatim>\<open>fromHex\<close> reads from it derive the key, the payload's salt is their hex
  text (which reads back as the same octets), and twelve octets are drawn for the
  nonce all the same. The supplied text itself is returned where it is the hex
  text of some octets, as the salt of an earlier payload is.
\<close>

theorem encryptData_salt_iv:
  "(\<not> truthy_opt providedSalt \<longrightarrow>
      encryptData wc t p providedSalt g =
        (Inr \<lparr>ciphertext = toHex (aes_gcm_encrypt wc (pbkdf2 wc (enc_encode p) (map g [0..<16]))
                                 (map g [16..<28]) (enc_encode t)),
              iv = toHex (map g [16..<28]), salt = toHex (map g [0..<16])\<rparr>,
         \<lambda>i. g (28 + i)))
   \<and> (\<forall>h. providedSalt = Some h \<and> truthy h \<and> list_all is_line_terminator h \<longrightarrow>
        encryptData wc t p providedSalt g = (Inl TypeError, g))
   \<and> (\<forall>h. providedSalt = Some h \<and> truthy h \<and> \<not> list_all is_line_terminator h \<longrightarrow>
        (\<exists>s. fromHex h = Inr s \<and> s \<noteq> []
            \<and> encryptData wc t p providedSalt g =
                (Inr \<lparr>ciphertext = toHex (aes_gcm_encrypt wc (pbkdf2 wc (enc_encode p) s)
                                         (map g [0..<12]) (enc_encode t)),
                      iv = toHex (map g [0..<12]), salt = toHex s\<rparr>,
                 \<lambda>i. g (12 + i))
            \<and> fromHex (toHex s) = Inr s))
   \<and> (\<forall>s. s \<noteq> [] \<and> providedSalt = Some (toHex s) \<longrightarrow>
        map_sum id salt (fst (encryptData wc t p providedSalt g)) = Inr (toHex s))"
proof (intro conjI allI impI)
  assume "\<not> truthy_opt providedSalt"
  then show "encryptData wc t p providedSalt g =
        (Inr \<lparr>ciphertext = toHex (aes_gcm_encrypt wc (pbkdf2 wc (enc_encode p) (map g [0..<16]))
                                 (map g [16..<28]) (enc_encode t)),
              iv = toHex (map g [16..<28]), salt = toHex (map g [0..<16])\<rparr>,
         \<lambda>i. g (28 + i))"
    by (rule encryptData_fresh)
next
  fix h
  assume a: "providedSalt = Some h \<and> truthy h \<and> list_all is_line_terminator h"
  then have "fromHex h = Inl TypeError"
    by (simp add: fromHex_cases)
  with a show "encryptData wc t p providedSalt g = (Inl TypeError, g)"
    by (simp add: encryptData_bad_salt)
next
  fix h
  assume a: "providedSalt = Some h \<and> truthy h \<and> \<not> list_all is_line_terminator h"
  define s where "s = map (\<lambda>byte. toUint8 (parseInt16 byte)) (match_chunks h)"
  from a have f: "fromHex h = Inr s"
    by (simp add: fromHex_cases s_def)
  then have n: "s \<noteq> []"
    by (rule fromHex_nonempty)
  from a f have "encryptData wc t p providedSalt g =
          (Inr \<lparr>ciphertext = toHex (aes_gcm_encrypt wc (pbkdf2 wc (enc_encode p) s)
                                   (map g [0..<12]) (enc_encode t)),
                iv = toHex (map g [0..<12]), salt = toHex s\<rparr>,
           \<lambda>i. g (12 + i))"
    by (simp add: encryptData_supplied)
  with f n fromHex_toHex [OF n]
  show "\<exists>s. fromHex h = Inr s \<and> s \<noteq> []
            \<and> encryptData wc t p providedSalt g =
                (Inr \<lparr>ciphertext = toHex (aes_gcm_encrypt wc (pbkdf2 wc (enc_encode p) s)
                                         (map g [0..<12]) (enc_encode t)),
                      iv = toHex (map g [0..<12]), salt = toHex s\<rparr>,
                 \<lambda>i. g (12 + i))
            \<and> fromHex (toHex s) = Inr s"
    by blast
next
  fix s :: bytes
  assume a: "s \<noteq> [] \<and> providedSalt = Some (toHex s)"
  then have "truthy (toHex s)"
    by (cases s) (simp_all add: truthy_def toHex_def byte_hex)
  with a show "map_sum id salt (fst (encryptData wc t p providedSalt g)) = Inr (toHex s)"
    by (simp add: encryptData_supplied [OF _ fromHex_toHex])
qed

theorem encryptData_salt_iv_witness:
  "map_sum id salt
     (fst (encryptData toy_crypto (js ''hi'') (js ''pw'') (Some (toHex [0xAB])) zero_rng))
     = Inr (toHex [0xAB])
   \<and> encryptData toy_crypto (js ''hi'') (js ''pw'') (Some [0x0A]) zero_rng
     = (Inl TypeError, zero_rng)"
proof -
  note e = encryptData_salt_iv [of _ toy_crypto "js ''hi''" "js ''pw''" zero_rng]
  from e [of "Some (toHex [0xAB])", THEN conjunct2, THEN conjunct2, THEN conjunct2, THEN spec,
      of "[0xAB]"]
  have "map_sum id salt
     (fst (encryptData toy_crypto (js ''hi'') (js ''pw'') (Some (toHex [0xAB])) zero_rng))
     = Inr (toHex [0xAB])"
    by simp
  moreover from e [of "Some [0x0A]", THEN conjunct2, THEN conjunct1, THEN spec, of "[0x0A]"]
  have "encryptData toy_crypto (js ''hi'') (js ''pw'') (Some [0x0A]) zero_rng
     = (Inl TypeError, zero_rng)"
    by (simp add: truthy_def is_line_terminator_def)
  ultimately show ?thesis by blast
qed

lemma hex_upper:
  "fromHex (js ''ABABABABABABABABABABABABABABABAB'')
     = Inr [0xAB, 0xAB, 0xAB, 0xAB, 0xAB, 0xAB, 0xAB, 0xAB,
            0xAB, 0xAB, 0xAB, 0xAB, 0xAB, 0xAB, 0xAB, 0xAB]"
  "toHex [0xAB, 0xAB, 0xAB, 0xAB, 0xAB, 0xAB, 0xAB, 0xAB,
          0xAB, 0xAB, 0xAB, 0xAB, 0xAB, 0xAB, 0xAB, 0xAB]
     = js ''abababababababababababababababab''"
  "truthy (js ''ABABABABABABABABABABABABABABABAB'')"
  by (simp_all add: js_def fromHex_def js_match_def is_line_terminator_def parseInt16_def
        is_white_space_def strip_sign_def strip_prefix16_def is_hex_digit_def hex_value_def
        toUint8_def toHex_def padStart_def toString16_def hex_digit_def truthy_def)

lemma hex_newline: "fromHex [0x0A] = Inl TypeError" "truthy [0x0A]"
  by (simp_all add: fromHex_def js_match_def is_line_terminator_def truthy_def)

text \<open>
  A supplied salt of sixteen octets written in upper case comes back in lower
  case; a supplied salt that is a line feed makes the call throw, with no nonce
  drawn.
\<close>

theorem encryptData_salt_counterexample:
  "map_sum id salt
     (fst (encryptData toy_crypto (js ''hi'') (js ''pw'')
             (Some (js ''ABABABABABABABABABABABABABABABAB'')) zero_rng))
     = Inr (js ''abababababababababababababababab'')
   \<and> js ''abababababababababababababababab'' \<noteq> js ''ABABABABABABABABABABABABABABABAB''
   \<and> encryptData toy_crypto (js ''hi'') (js ''pw'') (Some [0x0A]) count_rng
     = (Inl TypeError, count_rng)"
  by (simp add: encryptData_supplied [OF hex_upper(3) hex_upper(1)] hex_upper(2)
        encryptData_bad_salt [OF hex_newline(2) hex_newline(1)], simp add: js_def)

section \<open>What the handlers leave alone\<close>

lemma core_emit [simp]: "session_core (emit e s) = session_core s"
  by (simp add: session_core_def emit_def)

lemma core_fetch_final: "session_core (snd (fetch_final ev nt pw path s)) = session_core s"
  by (simp add: fetch_final_def Let_def split: sum.splits option.splits)

lemma core_index_text: "session_core (catch_warn (index_text ev nt pw path s)) = session_core s"
  using core_fetch_final [of ev nt pw path s]
  by (auto simp: index_text_def catch_warn_def session_core_def emit_def
        split: prod.splits sum.splits)

lemma core_index_image: "session_core (catch_warn (index_image ev nt pw path s)) = session_core s"
  using core_fetch_final [of ev nt pw path s]
  by (auto simp: index_image_def catch_warn_def session_core_def emit_def
        split: prod.splits sum.splits)

lemma core_index_path: "session_core (index_path ev nt pw ts is path s) = session_core s"
  by (simp add: index_path_def Let_def core_index_text core_index_image)

lemma fold_frame:
  assumes "\<And>x s. f (g x s) = f s"
  shows "f (fold g xs s) = f s"
  by (induction xs arbitrary: s) (simp_all add: assms)

lemma core_indexAttachments: "session_core (indexAttachments ev nt pw ts is s) = session_core s"
  by (simp add: indexAttachments_def fold_frame [where f = session_core, OF core_index_path]
        split: option.splits)

lemma core_fetchNotes: "session_core (fetchNotes ev s) = session_core s"
  by (simp add: fetchNotes_def session_core_def emit_def split: sum.splits)

lemma core_prepare_upload:
  "session_core (snd (prepare_upload ev f enc pw s)) = session_core s"
  by (simp add: prepare_upload_def session_core_def emit_def split: prod.splits)

lemma core_upload_one: "session_core (snd (upload_one ev f enc pw s)) = session_core s"
  using core_prepare_upload [of ev f enc pw s]
  by (auto simp: upload_one_def session_core_def emit_def split: prod.splits sum.splits)

lemma snd_pass:
  "snd (case p of (Inl e, s) \<Rightarrow> (Inl e, s) | (Inr x, s) \<Rightarrow> (Inr (g x), s)) = snd p"
  by (cases p) (simp split: sum.splits)

lemma core_processFileUploads:
  "session_core (snd (processFileUploads ev fs enc pw s)) = session_core s"
proof (induction fs arbitrary: s)
  case Nil
  show ?case by simp
next
  case (Cons f fs)
  show ?case
  proof (cases "upload_one ev f enc pw s")
    case (Pair r s1)
    have s1: "session_core s1 = session_core s"
      using core_upload_one [of ev f enc pw s] Pair by simp
    show ?thesis
    proof (cases r)
      case (Inl e)
      with Pair s1 show ?thesis by simp
    next
      case (Inr path)
      have "session_core (snd (processFileUploads ev fs enc pw s1)) = session_core s"
        using Cons.IH [of s1] s1 by simp
      with Pair Inr show ?thesis
        by (simp add: snd_pass)
    qed
  qed
qed

lemma core_encrypt_content:
  "session_core (snd (encrypt_content ev c pw s)) = session_core s"
  by (simp add: encrypt_content_def session_core_def emit_def split: prod.splits)

lemma core_build_payload:
  "session_core (snd (build_payload ev enc t c pw cat ps d s)) = session_core s"
  using core_encrypt_content [of ev c pw s]
  by (auto simp: build_payload_def split: prod.splits sum.splits)

lemma core_insert_note: "session_core (snd (insert_note ev pl s)) = session_core s"
  by (simp add: insert_note_def session_core_def emit_def split: prod.splits)

lemma core_update_note: "session_core (snd (update_note ev i pl s)) = session_core s"
  by (simp add: update_note_def session_core_def emit_def split: prod.splits)

lemma core_after_insert: "session_core (after_insert ev s) = session_core s"
  using core_fetchNotes
    [of ev "s\<lparr>newNote := empty_new_note (env_platform ev) (clock s), stagedFiles := [],
           isCreating := False, selectedCategory := js ''all'', searchQuery := []\<rparr>"]
  by (simp add: after_insert_def session_core_def)

lemma core_after_update: "session_core (after_update ev s) = session_core s"
  using core_fetchNotes [of ev "s\<lparr>stagedFiles := [], isEditing := False\<rparr>"]
  by (simp add: after_update_def session_core_def)

lemma core_catch_alert: "session_core (catch_alert p pre r) = session_core (snd r)"
  by (cases r) (simp add: catch_alert_def session_core_def emit_def split: option.splits)

lemma core_isUploading: "session_core (s\<lparr>isUploading := v\<rparr>) = session_core s"
  by (simp add: session_core_def)


lemma core_pfuD:
  "processFileUploads ev fs enc pw s = (r, s') \<Longrightarrow> session_core s' = session_core s"
  using core_processFileUploads [of ev fs enc pw s] by simp

lemma core_buildD:
  "build_payload ev enc t c pw cat ps d s = (r, s') \<Longrightarrow> session_core s' = session_core s"
  using core_build_payload [of ev enc t c pw cat ps d s] by simp

lemma core_insertD: "insert_note ev pl s = (r, s') \<Longrightarrow> session_core s' = session_core s"
  using core_insert_note [of ev pl s] by simp

lemma core_updateD: "update_note ev i pl s = (r, s') \<Longrightarrow> session_core s' = session_core s"
  using core_update_note [of ev i pl s] by simp

lemma core_save_new_body: "session_core (snd (save_new_body ev s)) = session_core s"
  by (auto simp: save_new_body_def Let_def core_after_insert
        split: prod.splits sum.splits option.splits
        dest!: core_pfuD core_buildD core_insertD)

lemma core_update_body: "session_core (snd (update_body ev nt pwd s)) = session_core s"
  by (auto simp: update_body_def Let_def core_after_update
        split: prod.splits sum.splits option.splits
        dest!: core_pfuD core_buildD core_updateD)

lemma core_handleSaveNewNote: "session_core (handleSaveNewNote ev s) = session_core s"
  by (simp add: handleSaveNewNote_def Let_def core_catch_alert core_save_new_body
        core_isUploading)

lemma core_handleUpdateNote: "session_core (handleUpdateNote ev s) = session_core s"
  by (simp add: handleUpdateNote_def Let_def core_catch_alert core_update_body core_isUploading
        split: option.splits)

section \<open>The session\<close>

lemma selectedNote_id:
  "selectedNote s = Some nt \<Longrightarrow> selectedNoteId s = Some (n_id nt)"
  by (auto simp: selectedNote_def find_Some_iff split: option.splits)

lemma core_clearLockTimer:
  "decryptedCache (clearLockTimer s) = decryptedCache s"
  "selectedNoteId (clearLockTimer s) = selectedNoteId s"
  "clock (clearLockTimer s) = clock s"
  "nextHandle (clearLockTimer s) = nextHandle s"
  "lockTimerRef (clearLockTimer s) = lockTimerRef s"
  "set (timeouts (clearLockTimer s)) \<subseteq> set (timeouts s)"
  by (auto simp: clearLockTimer_def clearTimeout_def split: option.splits)

text \<open>The notes held, the password typed and the preview caches.\<close>

lemma held_fetch_final:
  "vault_notes (snd (fetch_final ev nt pw path s)) = vault_notes s"
  "unlockPassword (snd (fetch_final ev nt pw path s)) = unlockPassword s"
  by (simp_all add: fetch_final_def Let_def emit_def split: sum.splits option.splits)

lemma held_index_path:
  "vault_notes (index_path ev nt pw ts is path s) = vault_notes s"
  "unlockPassword (index_path ev nt pw ts is path s) = unlockPassword s"
  using held_fetch_final [of ev nt pw path s]
  by (auto simp: index_path_def Let_def index_text_def index_image_def catch_warn_def emit_def
        split: prod.splits sum.splits option.splits)

lemma held_indexAttachments:
  "vault_notes (indexAttachments ev nt pw ts is s) = vault_notes s"
  "unlockPassword (indexAttachments ev nt pw ts is s) = unlockPassword s"
  by (simp_all add: indexAttachments_def
        fold_frame [where f = vault_notes, OF held_index_path(1)]
        fold_frame [where f = unlockPassword, OF held_index_path(2)]
        split: option.splits)

lemma unlock_settle_failure:
  assumes "decrypt_note (env_crypto ev) (pu_note p) (pu_password p) = Inl e"
  shows "unlock_settle ev p s = emit (Alert (js ''Invalid key.'')) s"
  using assms by (simp add: unlock_settle_def)

lemma unlock_settle_success:
  assumes "decrypt_note (env_crypto ev) (pu_note p) (pu_password p) = Inr t"
  shows "decryptedCache (unlock_settle ev p s) =
           (decryptedCache s)(n_id (pu_note p) \<mapsto>
              \<lparr>p_title = n_title (pu_note p), p_content = t\<rparr>)"
    and "timeouts (unlock_settle ev p s) =
           timeouts (clearLockTimer s) @ [(nextHandle s, clock s + 60000)]"
    and "clock (unlock_settle ev p s) = clock s"
    and "lockTimerRef (unlock_settle ev p s) = Some (nextHandle s)"
    and "selectedNoteId (unlock_settle ev p s) = selectedNoteId s"
    and "nextHandle (unlock_settle ev p s) = nextHandle s + 1"
    and "vault_notes (unlock_settle ev p s) = vault_notes s"
    and "unlockPassword (unlock_settle ev p s) = unlockPassword s"
proof -
  define s1 where "s1 = s\<lparr>decryptedCache :=
      (decryptedCache s)(n_id (pu_note p) \<mapsto> \<lparr>p_title = n_title (pu_note p), p_content = t\<rparr>)\<rparr>"
  define s2 where "s2 = indexAttachments ev (pu_note p) (Some (pu_password p))
      (pu_textSeen p) (pu_imageSeen p) s1"
  have c: "session_core s2 = session_core s1"
    unfolding s2_def by (rule core_indexAttachments)
  have eq: "unlock_settle ev p s =
      (snd (setTimeout 60000 (clearLockTimer s2)))\<lparr>lockTimerRef := Some (nextHandle s2)\<rparr>"
    using assms
    by (simp add: unlock_settle_def Let_def s1_def s2_def setTimeout_def core_clearLockTimer
          split: prod.splits)
  have f: "decryptedCache s2 =
      (decryptedCache s)(n_id (pu_note p) \<mapsto> \<lparr>p_title = n_title (pu_note p), p_content = t\<rparr>)"
    "timeouts s2 = timeouts s" "clock s2 = clock s" "lockTimerRef s2 = lockTimerRef s"
    "selectedNoteId s2 = selectedNoteId s" "nextHandle s2 = nextHandle s"
    using c by (simp_all add: session_core_def s1_def)
  have h: "vault_notes s2 = vault_notes s" "unlockPassword s2 = unlockPassword s"
    by (simp_all add: s2_def held_indexAttachments s1_def)
  have t: "timeouts (clearLockTimer s2) = timeouts (clearLockTimer s)"
    using f by (simp add: clearLockTimer_def clearTimeout_def split: option.splits)
  have k: "vault_notes (clearLockTimer s2) = vault_notes s2"
    "unlockPassword (clearLockTimer s2) = unlockPassword s2"
    by (simp_all add: clearLockTimer_def clearTimeout_def split: option.splits)
  show "decryptedCache (unlock_settle ev p s) =
           (decryptedCache s)(n_id (pu_note p) \<mapsto>
              \<lparr>p_title = n_title (pu_note p), p_content = t\<rparr>)"
    by (simp add: eq setTimeout_def core_clearLockTimer f)
  show "timeouts (unlock_settle ev p s) =
           timeouts (clearLockTimer s) @ [(nextHandle s, clock s + 60000)]"
    by (simp add: eq setTimeout_def core_clearLockTimer f t)
  show "clock (unlock_settle ev p s) = clock s"
    by (simp add: eq setTimeout_def core_clearLockTimer f)
  show "lockTimerRef (unlock_settle ev p s) = Some (nextHandle s)"
    by (simp add: eq f)
  show "selectedNoteId (unlock_settle ev p s) = selectedNoteId s"
    by (simp add: eq setTimeout_def core_clearLockTimer f)
  show "nextHandle (unlock_settle ev p s) = nextHandle s + 1"
    by (simp add: eq setTimeout_def core_clearLockTimer f)
  show "vault_notes (unlock_settle ev p s) = vault_notes s"
    by (simp add: eq setTimeout_def k h)
  show "unlockPassword (unlock_settle ev p s) = unlockPassword s"
    by (simp add: eq setTimeout_def k h)
qed

text \<open>What is left of the timeouts when the lock timer has been cleared.\<close>

lemma timeouts_clearLockTimer:
  "timeouts (clearLockTimer s) =
     (case lockTimerRef s of
        None \<Rightarrow> timeouts s
      | Some h \<Rightarrow> if h \<noteq> 0 then filter (\<lambda>t. fst t \<noteq> h) (timeouts s) else timeouts s)"
  by (simp add: clearLockTimer_def clearTimeout_def split: option.splits)

lemma unlock_begin_none: "selectedNote s = None \<Longrightarrow> unlock_begin s = (None, s)"
  by (simp add: unlock_begin_def)

lemma unlock_begin_some:
  "selectedNote s = Some nt \<Longrightarrow>
   unlock_begin s =
     (Some \<lparr>pu_note = nt, pu_password = unlockPassword s,
            pu_textSeen = attachmentTextCache s, pu_imageSeen = attachmentImageCache s\<rparr>,
      emit DecryptDataCall s)"
  by (simp add: unlock_begin_def)

lemma handleUnlock_settle:
  "selectedNote s = Some nt \<Longrightarrow>
   handleUnlock ev s =
     unlock_settle ev
       \<lparr>pu_note = nt, pu_password = unlockPassword s,
        pu_textSeen = attachmentTextCache s, pu_imageSeen = attachmentImageCache s\<rparr>
       (emit DecryptDataCall s)"
  by (simp add: handleUnlock_def unlock_begin_some)

lemma handleUnlock_failure:
  assumes "selectedNote s = Some nt"
    and "decrypt_note (env_crypto ev) nt (unlockPassword s) = Inl e"
  shows "handleUnlock ev s = emit (Alert (js ''Invalid key.'')) (emit DecryptDataCall s)"
  using assms by (simp add: handleUnlock_settle unlock_settle_failure)

lemma handleUnlock_none: "selectedNote s = None \<Longrightarrow> handleUnlock ev s = s"
  by (simp add: handleUnlock_def unlock_begin_none)

lemma handleUnlock_success:
  assumes "selectedNote s = Some nt"
    and "decrypt_note (env_crypto ev) nt (unlockPassword s) = Inr t"
  shows "decryptedCache (handleUnlock ev s) =
           (decryptedCache s)(n_id nt \<mapsto> \<lparr>p_title = n_title nt, p_content = t\<rparr>)"
    and "timeouts (handleUnlock ev s) =
           timeouts (clearLockTimer s) @ [(nextHandle s, clock s + 60000)]"
    and "clock (handleUnlock ev s) = clock s"
    and "lockTimerRef (handleUnlock ev s) = Some (nextHandle s)"
    and "selectedNoteId (handleUnlock ev s) = selectedNoteId s"
    and "nextHandle (handleUnlock ev s) = nextHandle s + 1"
    and "vault_notes (handleUnlock ev s) = vault_notes s"
    and "unlockPassword (handleUnlock ev s) = unlockPassword s"
proof -
  let ?p = "\<lparr>pu_note = nt, pu_password = unlockPassword s,
        pu_textSeen = attachmentTextCache s, pu_imageSeen = attachmentImageCache s\<rparr>"
  have d: "decrypt_note (env_crypto ev) (pu_note ?p) (pu_password ?p) = Inr t"
    using assms(2) by simp
  have c: "timeouts (clearLockTimer (emit DecryptDataCall s)) = timeouts (clearLockTimer s)"
    by (simp add: timeouts_clearLockTimer emit_def split: option.splits)
  note u = unlock_settle_success [OF d, of "emit DecryptDataCall s"]
  show "decryptedCache (handleUnlock ev s) =
           (decryptedCache s)(n_id nt \<mapsto> \<lparr>p_title = n_title nt, p_content = t\<rparr>)"
    using u(1) by (simp add: handleUnlock_settle [OF assms(1)] emit_def)
  show "timeouts (handleUnlock ev s) =
           timeouts (clearLockTimer s) @ [(nextHandle s, clock s + 60000)]"
    using u(2) c by (simp add: handleUnlock_settle [OF assms(1)] emit_def)
  show "clock (handleUnlock ev s) = clock s"
    using u(3) by (simp add: handleUnlock_settle [OF assms(1)] emit_def)
  show "lockTimerRef (handleUnlock ev s) = Some (nextHandle s)"
    using u(4) by (simp add: handleUnlock_settle [OF assms(1)] emit_def)
  show "selectedNoteId (handleUnlock ev s) = selectedNoteId s"
    using u(5) by (simp add: handleUnlock_settle [OF assms(1)] emit_def)
  show "nextHandle (handleUnlock ev s) = nextHandle s + 1"
    using u(6) by (simp add: handleUnlock_settle [OF assms(1)] emit_def)
  show "vault_notes (handleUnlock ev s) = vault_notes s"
    using u(7) by (simp add: handleUnlock_settle [OF assms(1)] emit_def)
  show "unlockPassword (handleUnlock ev s) = unlockPassword s"
    using u(8) by (simp add: handleUnlock_settle [OF assms(1)] emit_def)
qed

lemma handleSelectNote_clears:
  "decryptedCache (handleSelectNote ev i s) = Map.empty"
  "selectedNoteId (handleSelectNote ev i s) = Some i"
  "clock (handleSelectNote ev i s) = clock s"
  "timeouts (handleSelectNote ev i s) = timeouts (clearLockTimer s)"
  "lockTimerRef (handleSelectNote ev i s) = lockTimerRef s"
  "nextHandle (handleSelectNote ev i s) = nextHandle s"
proof -
  define s2 where "s2 = (clearLockTimer (s\<lparr>decryptedCache := Map.empty\<rparr>))
      \<lparr>selectedNoteId := Some i, isCreating := False, isEditing := False,
        unlockPassword := [], showPassword := False, stagedFiles := [],
        mobileView := js ''note''\<rparr>"
  have c: "session_core (handleSelectNote ev i s) = session_core s2"
    by (simp add: handleSelectNote_def Let_def s2_def [symmetric] core_indexAttachments
          split: option.splits)
  have t: "timeouts (clearLockTimer (s\<lparr>decryptedCache := Map.empty\<rparr>)) = timeouts (clearLockTimer s)"
    by (simp add: clearLockTimer_def clearTimeout_def split: option.splits)
  have f: "decryptedCache s2 = Map.empty" "selectedNoteId s2 = Some i" "clock s2 = clock s"
    "timeouts s2 = timeouts (clearLockTimer s)" "lockTimerRef s2 = lockTimerRef s"
    "nextHandle s2 = nextHandle s"
    by (simp_all add: s2_def core_clearLockTimer t)
  from c f show "decryptedCache (handleSelectNote ev i s) = Map.empty"
    "selectedNoteId (handleSelectNote ev i s) = Some i"
    "clock (handleSelectNote ev i s) = clock s"
    "timeouts (handleSelectNote ev i s) = timeouts (clearLockTimer s)"
    "lockTimerRef (handleSelectNote ev i s) = lockTimerRef s"
    "nextHandle (handleSelectNote ev i s) = nextHandle s"
    by (simp_all add: session_core_def)
qed

lemma handleSelectNote_held:
  "vault_notes (handleSelectNote ev i s) = vault_notes s"
  "unlockPassword (handleSelectNote ev i s) = []"
  by (simp_all add: handleSelectNote_def Let_def held_indexAttachments clearLockTimer_def
        clearTimeout_def split: option.splits)

lemma fold_lock_callback:
  "decryptedCache (fold (\<lambda>t. lock_callback) ts s) =
     (if ts = [] then decryptedCache s else Map.empty)"
  "selectedNoteId (fold (\<lambda>t. lock_callback) ts s) = selectedNoteId s"
  "timeouts (fold (\<lambda>t. lock_callback) ts s) = timeouts s"
  "clock (fold (\<lambda>t. lock_callback) ts s) = clock s"
  "lockTimerRef (fold (\<lambda>t. lock_callback) ts s) = lockTimerRef s"
  "nextHandle (fold (\<lambda>t. lock_callback) ts s) = nextHandle s"
  by (induction ts arbitrary: s) (simp_all add: lock_callback_def)

lemma elapse_fields:
  "decryptedCache (elapse dt s) =
     (if \<exists>t \<in> set (timeouts s). snd t \<le> clock s + dt then Map.empty else decryptedCache s)"
  "selectedNoteId (elapse dt s) = selectedNoteId s"
  "timeouts (elapse dt s) = filter (\<lambda>t. \<not> snd t \<le> clock s + dt) (timeouts s)"
  "clock (elapse dt s) = clock s + dt"
  "lockTimerRef (elapse dt s) = lockTimerRef s"
  "nextHandle (elapse dt s) = nextHandle s"
  by (auto simp: elapse_def run_due_def fold_lock_callback filter_empty_conv)

lemma elapse_idle:
  assumes "\<forall>t \<in> set (timeouts s). clock s + dt < snd t"
  shows "elapse dt s = s\<lparr>clock := clock s + dt\<rparr>"
proof -
  have "filter (\<lambda>t. snd t \<le> clock s + dt) (timeouts s) = []"
    using assms by (auto simp: filter_empty_conv)
  moreover have "filter (\<lambda>t. \<not> snd t \<le> clock s + dt) (timeouts s) = timeouts s"
    using assms by (auto simp: filter_id_conv)
  ultimately show ?thesis
    by (simp add: elapse_def run_due_def)
qed


lemma one_plaintext_core:
  "session_core s' = session_core s \<Longrightarrow> one_plaintext s' = one_plaintext s"
  by (simp add: one_plaintext_def session_core_def)

lemma one_plaintext_deselect:
  assumes "one_plaintext s" and "decryptedCache s' = decryptedCache s"
    and "selectedNoteId s' = None"
  shows "one_plaintext s'"
  using assms by (auto simp: one_plaintext_def)

lemma one_plaintext_empty: "decryptedCache s = Map.empty \<Longrightarrow> one_plaintext s"
  by (simp add: one_plaintext_def)

lemma one_plaintext_settle:
  assumes "one_plaintext s" and "selectedNoteId s = Some (n_id (pu_note p))"
  shows "one_plaintext (unlock_settle ev p s)"
proof (cases "decrypt_note (env_crypto ev) (pu_note p) (pu_password p)")
  case (Inl e)
  have "session_core (unlock_settle ev p s) = session_core s"
    by (simp add: unlock_settle_failure [OF Inl])
  from one_plaintext_core [OF this] show ?thesis using assms by simp
next
  case (Inr t)
  have d: "dom (decryptedCache (unlock_settle ev p s))
      = insert (n_id (pu_note p)) (dom (decryptedCache s))"
    by (simp add: unlock_settle_success(1) [OF Inr])
  have "dom (decryptedCache s) \<subseteq> {n_id (pu_note p)}"
    using assms by (auto simp: one_plaintext_def)
  with d have "dom (decryptedCache (unlock_settle ev p s)) = {n_id (pu_note p)}" by auto
  then show ?thesis
    using assms(2) by (auto simp: one_plaintext_def unlock_settle_success(5) [OF Inr])
qed

lemma core_unlock_begin: "session_core (snd (unlock_begin s)) = session_core s"
  by (simp add: unlock_begin_def split: option.splits)

lemma one_plaintext_unlock:
  assumes "one_plaintext s"
  shows "one_plaintext (handleUnlock ev s)"
proof (cases "selectedNote s")
  case None
  then show ?thesis using assms by (simp add: handleUnlock_none)
next
  case (Some nt)
  have "one_plaintext (emit DecryptDataCall s)"
    using assms one_plaintext_core [of "emit DecryptDataCall s" s] by simp
  moreover have "selectedNoteId (emit DecryptDataCall s) = Some (n_id nt)"
    using selectedNote_id [OF Some] by (simp add: emit_def)
  ultimately show ?thesis
    by (simp add: handleUnlock_settle [OF Some] one_plaintext_settle)
qed

lemma fetchNotes_fields:
  "decryptedCache (fetchNotes ev s) = decryptedCache s"
  "selectedNoteId (fetchNotes ev s) = selectedNoteId s"
  "timeouts (fetchNotes ev s) = timeouts s"
  "clock (fetchNotes ev s) = clock s"
  "lockTimerRef (fetchNotes ev s) = lockTimerRef s"
  "nextHandle (fetchNotes ev s) = nextHandle s"
  using core_fetchNotes [of ev s] by (simp_all add: session_core_def)

lemma core_deleteClicked:
  "decryptedCache (deleteClicked ev s) = decryptedCache s"
  "selectedNoteId (deleteClicked ev s) = selectedNoteId s \<or> selectedNoteId (deleteClicked ev s) = None"
  "timeouts (deleteClicked ev s) = timeouts s"
  "clock (deleteClicked ev s) = clock s"
  "lockTimerRef (deleteClicked ev s) = lockTimerRef s"
  "nextHandle (deleteClicked ev s) = nextHandle s"
  by (simp_all add: deleteClicked_def fetchNotes_fields emit_def split: option.splits prod.splits)

lemma core_editClicked: "session_core (editClicked s) = session_core s"
  by (simp add: editClicked_def session_core_def split: option.splits)

lemma one_plaintext_step:
  assumes "one_plaintext s"
  shows "one_plaintext (step ev e s)"
proof (cases e)
  case (SelectNote i)
  then show ?thesis by (simp add: one_plaintext_empty handleSelectNote_clears)
next
  case Unlock
  then show ?thesis using assms by (simp add: one_plaintext_unlock)
next
  case (Elapse dt)
  then show ?thesis
    using assms by (auto simp: one_plaintext_def elapse_fields)
next
  case NewClicked
  then show ?thesis
    using assms by (auto intro: one_plaintext_deselect simp: newClicked_def)
next
  case Back
  then show ?thesis
    using assms by (auto intro: one_plaintext_deselect)
next
  case DeleteNote
  then show ?thesis
    using assms core_deleteClicked(1,2) [of ev s] by (auto simp: one_plaintext_def)
next
  case SaveNewNote
  then show ?thesis
    using assms by (simp add: one_plaintext_core [OF core_handleSaveNewNote])
next
  case UpdateNote
  then show ?thesis
    using assms by (simp add: one_plaintext_core [OF core_handleUpdateNote])
next
  case EditClicked
  then show ?thesis
    using assms by (simp add: one_plaintext_core [OF core_editClicked])
next
  case FetchNotes
  then show ?thesis
    using assms by (simp add: one_plaintext_core [OF core_fetchNotes])
next
  case (SetSession v)
  then show ?thesis
    using assms one_plaintext_core [OF core_fetchNotes, of ev "s\<lparr>session := True\<rparr>"]
    by (simp add: one_plaintext_def)
qed (use assms in \<open>simp_all add: one_plaintext_def\<close>)

lemma one_plaintext_run: "one_plaintext s \<Longrightarrow> one_plaintext (run ev es s)"
  unfolding run_def by (induction es arbitrary: s) (simp_all add: one_plaintext_step)

lemma one_plaintext_initial: "one_plaintext (initial p b g t)"
  by (simp add: one_plaintext_def initial_def)

lemma one_plaintext_card: "one_plaintext s \<Longrightarrow> card (dom (decryptedCache s)) \<le> 1"
  by (auto simp: one_plaintext_def)

lemma one_plaintext_begin: "one_plaintext s \<Longrightarrow> one_plaintext (snd (unlock_begin s))"
  using one_plaintext_core [OF core_unlock_begin, of s] by simp

lemma async_begin_snd: "snd (async_step ev UnlockBegin (ps, s)) = snd (unlock_begin s)"
  by (simp split: prod.splits option.splits)

lemma one_plaintext_async:
  "settles_in_place ev es m \<Longrightarrow> one_plaintext (snd m)
   \<Longrightarrow> one_plaintext (snd (async_run ev es m))"
proof (induction es arbitrary: m)
  case Nil
  then show ?case by (simp add: async_run_def)
next
  case (Cons e es)
  obtain ps s where m: "m = (ps, s)" by (cases m)
  have step: "one_plaintext (snd (async_step ev e m))"
  proof (cases e)
    case (Now x)
    with Cons.prems(2) m show ?thesis by (simp add: one_plaintext_step)
  next
    case UnlockBegin
    with Cons.prems(2) m show ?thesis
      by (simp only: async_begin_snd) (simp add: one_plaintext_begin)
  next
    case (UnlockSettle i)
    with Cons.prems m show ?thesis by (simp add: one_plaintext_settle)
  qed
  have rest: "settles_in_place ev es (async_step ev e m)"
    using Cons.prems(1) m by (cases e) simp_all
  from Cons.IH [OF rest step] show ?case
    by (simp add: async_run_def)
qed

lemma async_run_Now: "async_run ev (map Now es) (ps, s) = (ps, run ev es s)"
  unfolding async_run_def run_def by (induction es arbitrary: s) simp_all

lemma settles_in_place_Now: "settles_in_place ev (map Now es) m"
  by (induction es arbitrary: m) simp_all

lemma async_unlock:
  "async_step ev (UnlockSettle (length ps)) (async_step ev UnlockBegin (ps, s))
     = (ps, handleUnlock ev s)"
  by (cases "unlock_begin s") (auto simp: handleUnlock_def unlock_begin_def split: option.splits)


lemma lock_pending_core:
  "session_core s' = session_core s \<Longrightarrow> lock_pending T s' = lock_pending T s"
  by (simp add: lock_pending_def session_core_def)

lemma lock_pending_fields:
  assumes "lock_pending T s" and "decryptedCache s' = decryptedCache s"
    and "timeouts s' = timeouts s" and "clock s' = clock s"
  shows "lock_pending T s'"
  using assms by (simp add: lock_pending_def)

lemma settle_fails_core:
  assumes "\<not> settle_succeeds ev p"
  shows "session_core (unlock_settle ev p s) = session_core s"
proof -
  from assms obtain e where "decrypt_note (env_crypto ev) (pu_note p) (pu_password p) = Inl e"
    by (auto simp: settle_succeeds_def split: sum.splits)
  from unlock_settle_failure [OF this] show ?thesis by simp
qed

lemma unlock_fails_core:
  assumes "\<not> unlock_succeeds ev s"
  shows "session_core (handleUnlock ev s) = session_core s"
proof (cases "selectedNote s")
  case None
  then show ?thesis by (simp add: handleUnlock_none)
next
  case (Some nt)
  with assms obtain e where "decrypt_note (env_crypto ev) nt (unlockPassword s) = Inl e"
    by (auto simp: unlock_succeeds_def split: sum.splits)
  from handleUnlock_failure [OF Some this] show ?thesis by simp
qed

lemma lock_pending_elapse:
  assumes "lock_pending T s"
  shows "lock_pending T (elapse dt s)"
proof (cases "\<exists>t \<in> set (timeouts s). snd t \<le> clock s + dt")
  case True
  then show ?thesis by (simp add: lock_pending_def elapse_fields)
next
  case False
  then have none: "\<And>h d. (h, d) \<in> set (timeouts s) \<Longrightarrow> clock s + dt < d"
    by fastforce
  show ?thesis
  proof (cases "decryptedCache s = Map.empty")
    case True
    then show ?thesis using False by (simp add: lock_pending_def elapse_fields)
  next
    case nonempty: False
    with assms obtain h d where p: "(h, d) \<in> set (timeouts s)" "d \<le> T"
      by (auto simp: lock_pending_def)
    from none [OF p(1)] have "clock s + dt < d" .
    with p False have "(h, d) \<in> set (timeouts (elapse dt s)) \<and> clock (elapse dt s) < d \<and> d \<le> T"
      by (simp add: elapse_fields)
    then show ?thesis unfolding lock_pending_def by blast
  qed
qed

lemma lock_pending_step:
  assumes "lock_pending T s" and "e \<noteq> Unlock \<or> \<not> unlock_succeeds ev s"
  shows "lock_pending T (step ev e s)"
proof (cases e)
  case (SelectNote i)
  then show ?thesis by (simp add: lock_pending_def handleSelectNote_clears)
next
  case Unlock
  with assms(2) have "\<not> unlock_succeeds ev s" by simp
  from lock_pending_core [OF unlock_fails_core [OF this]] show ?thesis
    using assms(1) Unlock by simp
next
  case (Elapse dt)
  then show ?thesis using assms(1) by (simp add: lock_pending_elapse)
next
  case DeleteNote
  then show ?thesis
    using assms(1) by (auto intro: lock_pending_fields simp: core_deleteClicked)
next
  case SaveNewNote
  then show ?thesis
    using assms(1) by (simp add: lock_pending_core [OF core_handleSaveNewNote])
next
  case UpdateNote
  then show ?thesis
    using assms(1) by (simp add: lock_pending_core [OF core_handleUpdateNote])
next
  case EditClicked
  then show ?thesis
    using assms(1) by (simp add: lock_pending_core [OF core_editClicked])
next
  case FetchNotes
  then show ?thesis
    using assms(1) by (simp add: lock_pending_core [OF core_fetchNotes])
next
  case (SetSession v)
  then show ?thesis
    using assms(1) lock_pending_core [OF core_fetchNotes, of T ev "s\<lparr>session := True\<rparr>"]
    by (simp add: lock_pending_def)
qed (use assms(1) in \<open>simp_all add: lock_pending_def newClicked_def\<close>)

lemma lock_pending_async_step:
  assumes "lock_pending T (snd m)" and "\<not> completes_unlock ev e m"
  shows "lock_pending T (snd (async_step ev e m))"
proof -
  obtain ps s where m: "m = (ps, s)" by (cases m)
  show ?thesis
  proof (cases e)
    case (Now x)
    with assms m show ?thesis by (simp add: lock_pending_step)
  next
    case UnlockBegin
    with assms(1) m lock_pending_core [OF core_unlock_begin, of T s] show ?thesis
      by (simp only: async_begin_snd) simp
  next
    case (UnlockSettle i)
    show ?thesis
    proof (cases "i < length ps")
      case True
      with assms(2) m UnlockSettle have "\<not> settle_succeeds ev (ps ! i)" by simp
      from lock_pending_core [OF settle_fails_core [OF this]] show ?thesis
        using assms(1) m UnlockSettle True by simp
    next
      case False
      with assms(1) m UnlockSettle show ?thesis by simp
    qed
  qed
qed

lemma lock_pending_quiet:
  "lock_pending T (snd m) \<Longrightarrow> quiet ev es m \<Longrightarrow> lock_pending T (snd (async_run ev es m))"
  unfolding async_run_def
  by (induction es arbitrary: m) (simp_all add: lock_pending_async_step)

lemma lock_pending_due:
  "lock_pending T s \<Longrightarrow> T \<le> clock s \<Longrightarrow> decryptedCache s = Map.empty"
  by (auto simp: lock_pending_def)

lemma unlock_succeedsD:
  assumes "unlock_succeeds ev s"
  obtains nt t where "selectedNote s = Some nt"
    and "decrypt_note (env_crypto ev) nt (unlockPassword s) = Inr t"
  using assms by (auto simp: unlock_succeeds_def split: option.splits sum.splits)

lemma settle_succeedsD:
  assumes "settle_succeeds ev p"
  obtains t where "decrypt_note (env_crypto ev) (pu_note p) (pu_password p) = Inr t"
  using assms by (auto simp: settle_succeeds_def split: sum.splits)

lemma timeouts_step:
  "(e = Unlock \<and> unlock_succeeds ev s) \<or> set (timeouts (step ev e s)) \<subseteq> set (timeouts s)"
proof (cases e)
  case (SelectNote i)
  then show ?thesis by (simp add: handleSelectNote_clears core_clearLockTimer)
next
  case Unlock
  show ?thesis
  proof (cases "unlock_succeeds ev s")
    case True
    with Unlock show ?thesis by simp
  next
    case False
    from unlock_fails_core [OF this] show ?thesis
      using Unlock by (simp add: session_core_def)
  qed
next
  case (Elapse dt)
  then show ?thesis by (auto simp: elapse_fields)
next
  case DeleteNote
  then show ?thesis by (simp add: core_deleteClicked)
next
  case SaveNewNote
  then show ?thesis
    using core_handleSaveNewNote [of ev s] by (simp add: session_core_def)
next
  case UpdateNote
  then show ?thesis
    using core_handleUpdateNote [of ev s] by (simp add: session_core_def)
next
  case EditClicked
  then show ?thesis
    using core_editClicked [of s] by (simp add: session_core_def)
next
  case FetchNotes
  then show ?thesis by (simp add: fetchNotes_fields)
next
  case (SetSession v)
  then show ?thesis by (simp add: fetchNotes_fields)
qed (simp_all add: newClicked_def)

lemma timeouts_async_step:
  "completes_unlock ev e m
   \<or> set (timeouts (snd (async_step ev e m))) \<subseteq> set (timeouts (snd m))"
proof -
  obtain ps s where m: "m = (ps, s)" by (cases m)
  show ?thesis
  proof (cases e)
    case (Now x)
    with m timeouts_step [of x ev s] show ?thesis by auto
  next
    case UnlockBegin
    with m core_unlock_begin [of s] show ?thesis
      by (simp only: async_begin_snd) (simp add: session_core_def)
  next
    case (UnlockSettle i)
    show ?thesis
    proof (cases "i < length ps \<and> settle_succeeds ev (ps ! i)")
      case True
      with m UnlockSettle show ?thesis by simp
    next
      case False
      then consider "\<not> i < length ps" | "i < length ps" "\<not> settle_succeeds ev (ps ! i)"
        by blast
      then show ?thesis
      proof cases
        case 1
        with m UnlockSettle show ?thesis by simp
      next
        case 2
        from settle_fails_core [OF 2(2), of s] show ?thesis
          using m UnlockSettle 2(1) by (simp add: session_core_def)
      qed
    qed
  qed
qed


lemma handles_fresh_core:
  "session_core s' = session_core s \<Longrightarrow> handles_fresh s' = handles_fresh s"
  by (simp add: handles_fresh_def session_core_def)

lemma handles_fresh_fields:
  assumes "handles_fresh s" and "set (timeouts s') \<subseteq> set (timeouts s)"
    and "lockTimerRef s' = lockTimerRef s" and "nextHandle s' = nextHandle s"
  shows "handles_fresh s'"
  using assms by (auto simp: handles_fresh_def)

lemma handles_fresh_settle:
  assumes "handles_fresh s"
  shows "handles_fresh (unlock_settle ev p s)"
proof (cases "decrypt_note (env_crypto ev) (pu_note p) (pu_password p)")
  case (Inl e)
  have "session_core (unlock_settle ev p s) = session_core s"
    by (simp add: unlock_settle_failure [OF Inl])
  from handles_fresh_core [OF this] show ?thesis using assms by simp
next
  case (Inr t)
  note u = unlock_settle_success [OF Inr, of s]
  have "\<forall>x \<in> set (timeouts (clearLockTimer s)). fst x < nextHandle s"
    using assms core_clearLockTimer(6) [of s] by (auto simp: handles_fresh_def)
  then show ?thesis
    by (auto simp: handles_fresh_def u(2,4,6) less_Suc_eq)
qed

lemma handles_fresh_step:
  assumes "handles_fresh s"
  shows "handles_fresh (step ev e s)"
proof (cases e)
  case (SelectNote i)
  have "handles_fresh (handleSelectNote ev i s)"
    by (rule handles_fresh_fields [OF assms])
      (simp_all add: handleSelectNote_clears core_clearLockTimer)
  with SelectNote show ?thesis by simp
next
  case Unlock
  show ?thesis
  proof (cases "selectedNote s")
    case None
    with Unlock assms show ?thesis by (simp add: handleUnlock_none)
  next
    case (Some nt)
    have "handles_fresh (emit DecryptDataCall s)"
      using assms handles_fresh_core [of "emit DecryptDataCall s" s] by simp
    then show ?thesis
      using Unlock by (simp add: handleUnlock_settle [OF Some] handles_fresh_settle)
  qed
next
  case (Elapse dt)
  have "handles_fresh (elapse dt s)"
    by (rule handles_fresh_fields [OF assms]) (auto simp: elapse_fields)
  with Elapse show ?thesis by simp
next
  case DeleteNote
  have "handles_fresh (deleteClicked ev s)"
    by (rule handles_fresh_fields [OF assms]) (simp_all add: core_deleteClicked)
  with DeleteNote show ?thesis by simp
next
  case SaveNewNote
  then show ?thesis
    using assms by (simp add: handles_fresh_core [OF core_handleSaveNewNote])
next
  case UpdateNote
  then show ?thesis
    using assms by (simp add: handles_fresh_core [OF core_handleUpdateNote])
next
  case EditClicked
  then show ?thesis
    using assms by (simp add: handles_fresh_core [OF core_editClicked])
next
  case FetchNotes
  then show ?thesis
    using assms by (simp add: handles_fresh_core [OF core_fetchNotes])
next
  case (SetSession v)
  then show ?thesis
    using assms handles_fresh_core [OF core_fetchNotes, of ev "s\<lparr>session := True\<rparr>"]
    by (simp add: handles_fresh_def)
qed (use assms in \<open>simp_all add: handles_fresh_def newClicked_def\<close>)

lemma handles_fresh_async_step:
  assumes "handles_fresh (snd m)"
  shows "handles_fresh (snd (async_step ev e m))"
proof -
  obtain ps s where m: "m = (ps, s)" by (cases m)
  show ?thesis
  proof (cases e)
    case (Now x)
    with assms m show ?thesis by (simp add: handles_fresh_step)
  next
    case UnlockBegin
    with assms m handles_fresh_core [OF core_unlock_begin, of s] show ?thesis
      by (simp only: async_begin_snd) simp
  next
    case (UnlockSettle i)
    with assms m show ?thesis by (simp add: handles_fresh_settle)
  qed
qed

lemma handles_fresh_async:
  "handles_fresh (snd m) \<Longrightarrow> handles_fresh (snd (async_run ev es m))"
  unfolding async_run_def
  by (induction es arbitrary: m) (simp_all add: handles_fresh_async_step)

lemma handles_fresh_initial: "handles_fresh (initial p b g t)"
  by (simp add: handles_fresh_def initial_def)


lemma demo_selected: "selectedNote demo_state = Some demo_note"
  by (simp add: selectedNote_def demo_state_def demo_note_def)

lemma js_hello_wf: "well_formed (js ''hello'')" "\<not> starts_with_bom (js ''hello'')"
  by (simp_all add: js_def starts_with_bom_def is_lead_def is_trail_def)

lemma demo_note_opens: "decrypt_note toy_crypto demo_note (js ''pw'') = Inr (js ''hello'')"
proof -
  have s: "map zero_rng [0..<16] \<noteq> []" and n: "map zero_rng [16..<28] \<noteq> []"
    by simp_all
  have "decrypt_note toy_crypto demo_note (js ''pw'') = Inr (dec_decode (enc_encode (js ''hello'')))"
    unfolding decrypt_note_def demo_note_def
    by (simp only: vault_note.simps option.case
          decryptData_eq [OF fromHex_toHex [OF s] fromHex_toHex [OF n] fromHex_toHex [OF toy_tagged]]
          toy_round_trip)
  then show ?thesis
    by (simp add: text_round_trip [OF js_hello_wf])
qed

lemma decrypt_note_same:
  assumes "n_salt a = n_salt b" and "n_iv a = n_iv b" and "n_content a = n_content b"
  shows "decrypt_note wc a pw = decrypt_note wc b pw"
  using assms by (simp add: decrypt_note_def split: option.splits)

lemma demo_other_opens: "decrypt_note toy_crypto demo_other (js ''pw'') = Inr (js ''hello'')"
  using demo_note_opens decrypt_note_same [of demo_other demo_note toy_crypto "js ''pw''"]
  by (simp add: demo_other_def)

lemma demo_decrypts:
  "decrypt_note (env_crypto toy_env) demo_note (unlockPassword demo_state) = Inr (js ''hello'')"
  using demo_note_opens by (simp add: toy_env_def demo_state_def)

lemma demo_unlocks: "unlock_succeeds toy_env demo_state"
  by (simp add: unlock_succeeds_def demo_selected demo_decrypts)

lemma demo_fields:
  "clock demo_state = 0" "nextHandle demo_state = 1" "timeouts demo_state = []"
  "lockTimerRef demo_state = None" "vault_notes demo_state = [demo_note]"
  "selectedNoteId demo_state = Some (js ''a'')" "unlockPassword demo_state = js ''pw''"
  by (simp_all add: demo_state_def initial_def)

text \<open>
  C6. When an unlock settles with success the cache holds plaintext, the timeout
  of the lock timer before it has been removed from the pending ones (in a state
  that can be reached its handle is pending no more), and a timeout due 60000 ms
  later is pending under a new handle, which the lock timer now refers to.
  Whatever follows, events in between the two parts of other unlocks included,
  if no unlock completes with success the cache is empty as soon as the clock
  has reached that time. No event other than an unlock completing with success
  adds or postpones a timeout: reading, editing and saving leave the timeouts as
  they are or remove some.
\<close>

theorem auto_lock:
  assumes "settle_succeeds ev p"
    and "quiet ev es (ps, unlock_settle ev p s)"
    and "clock s + 60000 \<le> clock (snd (async_run ev es (ps, unlock_settle ev p s)))"
  shows "decryptedCache (unlock_settle ev p s) \<noteq> Map.empty
     \<and> lockTimerRef (unlock_settle ev p s) = Some (nextHandle s)
     \<and> timeouts (unlock_settle ev p s) =
         (case lockTimerRef s of
            None \<Rightarrow> timeouts s
          | Some h \<Rightarrow> if h \<noteq> 0 then filter (\<lambda>t. fst t \<noteq> h) (timeouts s) else timeouts s)
         @ [(nextHandle s, clock s + 60000)]
     \<and> (\<forall>h. handles_fresh s \<and> lockTimerRef s = Some h \<and> h \<noteq> 0
            \<longrightarrow> h \<notin> fst ` set (timeouts (unlock_settle ev p s)))
     \<and> decryptedCache (snd (async_run ev es (ps, unlock_settle ev p s))) = Map.empty
     \<and> (\<forall>e m. completes_unlock ev e m
                \<or> set (timeouts (snd (async_step ev e m))) \<subseteq> set (timeouts (snd m)))
     \<and> handles_fresh (snd (async_run ev es' ([], initial pf b g t)))
     \<and> (\<forall>nt. selectedNote s' = Some nt \<longrightarrow>
           handleUnlock ev s' =
             unlock_settle ev
               \<lparr>pu_note = nt, pu_password = unlockPassword s',
                pu_textSeen = attachmentTextCache s', pu_imageSeen = attachmentImageCache s'\<rparr>
               (emit DecryptDataCall s'))"
proof -
  from assms(1) obtain x
    where dec: "decrypt_note (env_crypto ev) (pu_note p) (pu_password p) = Inr x"
    by (rule settle_succeedsD)
  note u = unlock_settle_success [OF dec, of s]
  have "(nextHandle s, clock s + 60000) \<in> set (timeouts (unlock_settle ev p s))"
    and "clock (unlock_settle ev p s) < clock s + 60000"
    by (simp_all add: u(2,3))
  then have "lock_pending (clock s + 60000) (unlock_settle ev p s)"
    unfolding lock_pending_def by blast
  then have "lock_pending (clock s + 60000) (snd (ps, unlock_settle ev p s))"
    by simp
  from lock_pending_quiet [OF this assms(2)] assms(3)
  have gone: "decryptedCache (snd (async_run ev es (ps, unlock_settle ev p s))) = Map.empty"
    by (rule lock_pending_due)
  have held: "decryptedCache (unlock_settle ev p s) \<noteq> Map.empty"
    by (simp add: u(1))
  have ts: "timeouts (unlock_settle ev p s) =
         (case lockTimerRef s of
            None \<Rightarrow> timeouts s
          | Some h \<Rightarrow> if h \<noteq> 0 then filter (\<lambda>t. fst t \<noteq> h) (timeouts s) else timeouts s)
         @ [(nextHandle s, clock s + 60000)]"
    by (simp add: u(2) timeouts_clearLockTimer)
  have cancelled: "h \<notin> fst ` set (timeouts (unlock_settle ev p s))"
    if "handles_fresh s" "lockTimerRef s = Some h" "h \<noteq> 0" for h
  proof -
    from that(1,2) have "h \<noteq> nextHandle s"
      by (auto simp: handles_fresh_def)
    with that(2,3) show ?thesis
      by (auto simp: ts)
  qed
  have fresh: "handles_fresh (snd (async_run ev es' ([], initial pf b g t)))"
    by (rule handles_fresh_async) (simp add: handles_fresh_initial)
  have c4: "\<forall>h. handles_fresh s \<and> lockTimerRef s = Some h \<and> h \<noteq> 0
            \<longrightarrow> h \<notin> fst ` set (timeouts (unlock_settle ev p s))"
    using cancelled by blast
  have c6: "\<forall>e m. completes_unlock ev e m
                \<or> set (timeouts (snd (async_step ev e m))) \<subseteq> set (timeouts (snd m))"
    using timeouts_async_step [of ev] by blast
  have c8: "\<forall>nt. selectedNote s' = Some nt \<longrightarrow>
           handleUnlock ev s' =
             unlock_settle ev
               \<lparr>pu_note = nt, pu_password = unlockPassword s',
                pu_textSeen = attachmentTextCache s', pu_imageSeen = attachmentImageCache s'\<rparr>
               (emit DecryptDataCall s')"
    by (simp add: handleUnlock_settle)
  from held u(4) ts c4 gone c6 fresh c8 show ?thesis
    by - (intro conjI; assumption)
qed

theorem auto_lock_witness:
  "timeouts (handleUnlock toy_env (elapse 30000 (handleUnlock toy_env demo_state))) = [(2, 90000)]
   \<and> decryptedCache
        (elapse 30000 (handleUnlock toy_env (elapse 30000 (handleUnlock toy_env demo_state))))
       \<noteq> Map.empty
   \<and> decryptedCache
        (elapse 30000 (elapse 30000
           (handleUnlock toy_env (elapse 30000 (handleUnlock toy_env demo_state)))))
       = Map.empty"
proof -
  define s1 where "s1 = handleUnlock toy_env demo_state"
  define s2 where "s2 = elapse 30000 s1"
  define p where "p = \<lparr>pu_note = demo_note, pu_password = js ''pw'',
      pu_textSeen = attachmentTextCache s2, pu_imageSeen = attachmentImageCache s2\<rparr>"
  define s3 where "s3 = unlock_settle toy_env p (emit DecryptDataCall s2)"
  note u1 = handleUnlock_success [OF demo_selected demo_decrypts, folded s1_def]
  have f1: "timeouts s1 = [(1, 60000)]" "clock s1 = 0" "lockTimerRef s1 = Some 1"
    "nextHandle s1 = 2" "vault_notes s1 = [demo_note]" "selectedNoteId s1 = Some (js ''a'')"
    "unlockPassword s1 = js ''pw''"
    by (simp_all add: u1 demo_fields timeouts_clearLockTimer)
  have idle: "s2 = s1\<lparr>clock := 30000\<rparr>"
    unfolding s2_def using elapse_idle [of s1 30000] by (simp add: f1)
  have f2: "timeouts s2 = [(1, 60000)]" "clock s2 = 30000" "lockTimerRef s2 = Some 1"
    "nextHandle s2 = 2" "unlockPassword s2 = js ''pw''"
    by (simp_all add: idle f1)
  have sel: "selectedNote s2 = Some demo_note"
    by (simp add: selectedNote_def idle f1 demo_note_def)
  have h: "handleUnlock toy_env s2 = s3"
    by (simp add: handleUnlock_settle [OF sel] s3_def p_def f2)
  have ok: "settle_succeeds toy_env p"
    using demo_note_opens by (simp add: settle_succeeds_def p_def toy_env_def)
  have dec: "decrypt_note (env_crypto toy_env) (pu_note p) (pu_password p) = Inr (js ''hello'')"
    using demo_note_opens by (simp add: p_def toy_env_def)
  note u3 = unlock_settle_success [OF dec, of "emit DecryptDataCall s2", folded s3_def]
  have f3: "clock s3 = 30000"
    by (simp add: u3 emit_def f2)
  have q: "quiet toy_env [Now (Elapse 30000), Now (Elapse 30000)]
      ([], unlock_settle toy_env p (emit DecryptDataCall s2))"
    by simp
  have c: "clock (emit DecryptDataCall s2) + 60000
      \<le> clock (snd (async_run toy_env [Now (Elapse 30000), Now (Elapse 30000)]
            ([], unlock_settle toy_env p (emit DecryptDataCall s2))))"
    using f3 by (simp add: async_run_def elapse_fields emit_def f2 s3_def)
  note a = auto_lock [OF ok q c]
  from a [THEN conjunct2, THEN conjunct2, THEN conjunct1]
  have t3: "timeouts s3 = [(2, 90000)]"
    by (simp add: s3_def emit_def f2)
  from a [THEN conjunct1] have held: "decryptedCache s3 \<noteq> Map.empty"
    by (simp add: s3_def)
  from a [THEN conjunct2, THEN conjunct2, THEN conjunct2, THEN conjunct2, THEN conjunct1]
  have gone: "decryptedCache (elapse 30000 (elapse 30000 s3)) = Map.empty"
    by (simp add: async_run_def s3_def)
  have still: "decryptedCache (elapse 30000 s3) \<noteq> Map.empty"
    using held by (simp add: elapse_fields t3 f3)
  from t3 still gone show ?thesis
    by (simp add: h [unfolded s2_def s1_def] s2_def s1_def)
qed

lemma truthy_toHex: "bs \<noteq> [] \<Longrightarrow> truthy (toHex bs)"
  by (cases bs) (simp_all add: truthy_def toHex_def byte_hex)

lemma demo_rows:
  "db_getNotes toy_store toy_platform t demo_backend = Inr [demo_note, demo_other]"
proof -
  have c: "truthy (n_content demo_note)"
    by (simp add: demo_note_def truthy_toHex toy_tagged)
  have f: "truthy (js ''2024-01-01T00:00'')" "truthy (js ''Diary'')" "truthy (js ''Ledger'')"
    "truthy (js ''Personal'')"
    by (simp_all add: truthy_def js_def)
  have a: "js_or (Some (n_content demo_note)) x = n_content demo_note" for x
    using c by (simp add: js_or_def)
  show ?thesis
    using a f
    by (simp add: db_getNotes_def toy_store_def demo_backend_def row_of_def demo_other_def
          js_or_def demo_note_def)
qed

lemma demo_loaded_fields:
  "vault_notes demo_loaded = [demo_note, demo_other]"
  "selectedNoteId demo_loaded = Some (js ''a'')"
  "unlockPassword demo_loaded = js ''pw''"
  "decryptedCache demo_loaded = Map.empty"
  "selectedNote demo_loaded = Some demo_note"
proof -
  define s1 where "s1 = step toy_env (SetSession True) (initial toy_platform demo_backend zero_rng 0)"
  define s2 where "s2 = step toy_env (SelectNote (js ''a'')) s1"
  have e: "demo_loaded = step toy_env (TypeUnlockPassword (js ''pw'')) s2"
    by (simp only: demo_loaded_def run_def fold_simps s1_def s2_def o_apply)
  have n1: "vault_notes s1 = [demo_note, demo_other]"
    by (simp add: s1_def fetchNotes_def initial_def toy_env_def demo_rows emit_def)
  have n2: "vault_notes s2 = [demo_note, demo_other]" "selectedNoteId s2 = Some (js ''a'')"
    "decryptedCache s2 = Map.empty"
    by (simp_all add: s2_def handleSelectNote_held handleSelectNote_clears n1)
  show "vault_notes demo_loaded = [demo_note, demo_other]"
    "selectedNoteId demo_loaded = Some (js ''a'')"
    "unlockPassword demo_loaded = js ''pw''" "decryptedCache demo_loaded = Map.empty"
    by (simp_all add: e n2)
  then show "selectedNote demo_loaded = Some demo_note"
    by (simp add: selectedNote_def demo_note_def)
qed

lemma async_run_append: "async_run ev (xs @ ys) m = async_run ev ys (async_run ev xs m)"
  by (simp add: async_run_def)

lemma settles_in_place_append:
  "settles_in_place ev (xs @ ys) m
     = (settles_in_place ev xs m \<and> settles_in_place ev ys (async_run ev xs m))"
  by (induction ev xs m rule: settles_in_place.induct) (simp_all add: async_run_def)

lemma demo_loaded_run:
  "async_run toy_env
     (map Now [SetSession True, SelectNote (js ''a''), TypeUnlockPassword (js ''pw'')])
     ([], initial toy_platform demo_backend zero_rng 0) = ([], demo_loaded)"
  by (simp only: async_run_Now demo_loaded_def)

text \<open>
  C5 (amended). As long as every unlock settles while the note it was started
  for is the selected one, which is so when each handler has run to its end
  before the next event, the cache holds plaintext for at most one note in every
  state reached. \<^verbatim>\<open>handleSelectNote\<close> empties the cache, selects the note and
  clears the lock timer's timeout whatever note is selected, the same one and an
  unencrypted one included; so after a completed unlock followed by a selection
  the cache is empty.
\<close>

theorem session_exclusive:
  "(settles_in_place ev es m \<and> one_plaintext (snd m) \<longrightarrow>
      one_plaintext (snd (async_run ev es m))
      \<and> card (dom (decryptedCache (snd (async_run ev es m)))) \<le> 1)
   \<and> one_plaintext (initial p b g t)
   \<and> one_plaintext (run ev es' (initial p b g t))
   \<and> async_run ev (map Now es') (ps, s) = (ps, run ev es' s)
   \<and> settles_in_place ev (map Now es') (ps, s)
   \<and> async_step ev (UnlockSettle (length ps)) (async_step ev UnlockBegin (ps, s))
        = (ps, handleUnlock ev s)
   \<and> decryptedCache (handleSelectNote ev i s) = Map.empty
   \<and> selectedNoteId (handleSelectNote ev i s) = Some i
   \<and> (\<forall>h. lockTimerRef s = Some h \<and> h \<noteq> 0
          \<longrightarrow> h \<notin> fst ` set (timeouts (handleSelectNote ev i s)))
   \<and> decryptedCache (handleSelectNote ev j (handleUnlock ev s)) = Map.empty"
proof -
  have inv: "one_plaintext (snd (async_run ev es m))
      \<and> card (dom (decryptedCache (snd (async_run ev es m)))) \<le> 1"
    if "settles_in_place ev es m \<and> one_plaintext (snd m)"
    using one_plaintext_async [of ev es m] one_plaintext_card that by blast
  have gone: "h \<notin> fst ` set (timeouts (handleSelectNote ev i s))"
    if "lockTimerRef s = Some h \<and> h \<noteq> 0" for h
    using that by (auto simp: handleSelectNote_clears timeouts_clearLockTimer)
  from inv gone show ?thesis
    by (simp add: one_plaintext_initial one_plaintext_run [OF one_plaintext_initial]
          async_run_Now settles_in_place_Now async_unlock handleSelectNote_clears
          del: async_step.simps)
qed

theorem session_exclusive_witness:
  "one_plaintext (snd (async_run toy_env
      (map Now [SetSession True, SelectNote (js ''a''), TypeUnlockPassword (js ''pw'')]
        @ [UnlockBegin, UnlockSettle 0])
      ([], initial toy_platform demo_backend zero_rng 0)))
   \<and> dom (decryptedCache (snd (async_run toy_env
      (map Now [SetSession True, SelectNote (js ''a''), TypeUnlockPassword (js ''pw'')]
        @ [UnlockBegin, UnlockSettle 0])
      ([], initial toy_platform demo_backend zero_rng 0)))) = {js ''a''}
   \<and> decryptedCache (handleSelectNote toy_env (js ''b'') (snd (async_run toy_env
      (map Now [SetSession True, SelectNote (js ''a''), TypeUnlockPassword (js ''pw'')]
        @ [UnlockBegin, UnlockSettle 0])
      ([], initial toy_platform demo_backend zero_rng 0)))) = Map.empty"
proof -
  let ?es = "map Now [SetSession True, SelectNote (js ''a''), TypeUnlockPassword (js ''pw'')]
        @ [UnlockBegin, UnlockSettle 0]"
  let ?m = "([], initial toy_platform demo_backend zero_rng 0) :: pending_unlock list \<times> toy_backend app_state"
  define p where "p = \<lparr>pu_note = demo_note, pu_password = js ''pw'',
      pu_textSeen = attachmentTextCache demo_loaded,
      pu_imageSeen = attachmentImageCache demo_loaded\<rparr>"
  have b: "unlock_begin demo_loaded = (Some p, emit DecryptDataCall demo_loaded)"
    by (simp add: unlock_begin_some [OF demo_loaded_fields(5)] p_def demo_loaded_fields)
  have place: "settles_in_place toy_env ?es ?m"
    by (simp only: settles_in_place_append settles_in_place_Now demo_loaded_run)
      (simp add: b p_def emit_def demo_loaded_fields demo_note_def)
  have r: "async_run toy_env ?es ?m = ([], unlock_settle toy_env p (emit DecryptDataCall demo_loaded))"
    by (simp only: async_run_append demo_loaded_run) (simp add: async_run_def b)
  have dec: "decrypt_note (env_crypto toy_env) (pu_note p) (pu_password p) = Inr (js ''hello'')"
    using demo_note_opens by (simp add: p_def toy_env_def)
  have d: "dom (decryptedCache (snd (async_run toy_env ?es ?m))) = {js ''a''}"
    by (simp only: r snd_conv unlock_settle_success(1) [OF dec])
      (simp add: emit_def demo_loaded_fields p_def demo_note_def)
  have o: "one_plaintext (snd ?m)"
    by (simp add: one_plaintext_initial)
  from session_exclusive [of toy_env ?es ?m, THEN conjunct1] place o
  have "one_plaintext (snd (async_run toy_env ?es ?m))"
    by blast
  moreover note d
  moreover have "decryptedCache (handleSelectNote toy_env (js ''b'')
      (snd (async_run toy_env ?es ?m))) = Map.empty"
    by (rule session_exclusive [THEN conjunct2, THEN conjunct2, THEN conjunct2, THEN conjunct2,
          THEN conjunct2, THEN conjunct2, THEN conjunct1])
  ultimately show ?thesis by blast
qed

text \<open>
  The first note is still being unlocked when the second is selected; it
  settles afterwards, and the second is unlocked in turn.
\<close>

theorem session_exclusive_counterexample:
  "decryptedCache (snd (async_run toy_env
      (map Now [SetSession True, SelectNote (js ''a''), TypeUnlockPassword (js ''pw'')]
        @ [UnlockBegin, Now (SelectNote (js ''b'')), UnlockSettle 0,
           Now (TypeUnlockPassword (js ''pw'')), Now Unlock])
      ([], initial toy_platform demo_backend zero_rng 0))) (js ''a'')
     = Some \<lparr>p_title = js ''Diary'', p_content = js ''hello''\<rparr>
   \<and> decryptedCache (snd (async_run toy_env
      (map Now [SetSession True, SelectNote (js ''a''), TypeUnlockPassword (js ''pw'')]
        @ [UnlockBegin, Now (SelectNote (js ''b'')), UnlockSettle 0,
           Now (TypeUnlockPassword (js ''pw'')), Now Unlock])
      ([], initial toy_platform demo_backend zero_rng 0))) (js ''b'')
     = Some \<lparr>p_title = js ''Ledger'', p_content = js ''hello''\<rparr>
   \<and> js ''a'' \<noteq> js ''b''"
proof -
  define p where "p = \<lparr>pu_note = demo_note, pu_password = js ''pw'',
      pu_textSeen = attachmentTextCache demo_loaded,
      pu_imageSeen = attachmentImageCache demo_loaded\<rparr>"
  define t4 where "t4 = handleSelectNote toy_env (js ''b'') (emit DecryptDataCall demo_loaded)"
  define t5 where "t5 = unlock_settle toy_env p t4"
  define t6 where "t6 = t5\<lparr>unlockPassword := js ''pw''\<rparr>"
  have ab: "js ''a'' \<noteq> js ''b''"
    by (simp add: js_def)
  have b: "unlock_begin demo_loaded = (Some p, emit DecryptDataCall demo_loaded)"
    by (simp add: unlock_begin_some [OF demo_loaded_fields(5)] p_def demo_loaded_fields)
  have r: "async_run toy_env
      (map Now [SetSession True, SelectNote (js ''a''), TypeUnlockPassword (js ''pw'')]
        @ [UnlockBegin, Now (SelectNote (js ''b'')), UnlockSettle 0,
           Now (TypeUnlockPassword (js ''pw'')), Now Unlock])
      ([], initial toy_platform demo_backend zero_rng 0) = ([], handleUnlock toy_env t6)"
    by (simp only: async_run_append demo_loaded_run)
      (simp add: async_run_def b t4_def t5_def t6_def)
  have f4: "vault_notes t4 = [demo_note, demo_other]" "selectedNoteId t4 = Some (js ''b'')"
    "decryptedCache t4 = Map.empty"
    by (simp_all add: t4_def handleSelectNote_held handleSelectNote_clears emit_def
          demo_loaded_fields)
  have dec: "decrypt_note (env_crypto toy_env) (pu_note p) (pu_password p) = Inr (js ''hello'')"
    using demo_note_opens by (simp add: p_def toy_env_def)
  note u5 = unlock_settle_success [OF dec, of t4, folded t5_def]
  have f6: "vault_notes t6 = [demo_note, demo_other]" "selectedNoteId t6 = Some (js ''b'')"
    "unlockPassword t6 = js ''pw''"
    "decryptedCache t6 = [js ''a'' \<mapsto> \<lparr>p_title = js ''Diary'', p_content = js ''hello''\<rparr>]"
    by (simp_all add: t6_def u5 f4 p_def demo_note_def)
  have sel: "selectedNote t6 = Some demo_other"
    using ab by (simp add: selectedNote_def f6 demo_note_def demo_other_def)
  have dec6: "decrypt_note (env_crypto toy_env) demo_other (unlockPassword t6) = Inr (js ''hello'')"
    using demo_other_opens by (simp add: f6 toy_env_def)
  have "decryptedCache (handleUnlock toy_env t6) =
      [js ''a'' \<mapsto> \<lparr>p_title = js ''Diary'', p_content = js ''hello''\<rparr>,
       js ''b'' \<mapsto> \<lparr>p_title = js ''Ledger'', p_content = js ''hello''\<rparr>]"
    by (simp add: handleUnlock_success(1) [OF sel dec6] f6 demo_other_def)
  with ab show ?thesis
    by (simp only: r snd_conv) simp
qed

section \<open>Unlocking with another password\<close>











section \<open>Saving\<close>

text \<open>
  C9. When encryption is asked for and no password is there, \<^verbatim>\<open>handleSaveNewNote\<close>
  and \<^verbatim>\<open>handleUpdateNote\<close> do nothing but raise an alert: the state is the one
  before with that alert appended to its trace, so no encryption, no upload and no
  write has been made, and the backend and the generator are as before. (With no
  note selected \<^verbatim>\<open>handleUpdateNote\<close> returns at once.)
\<close>

theorem save_requires_password:
  "(nn_encrypt (newNote s) \<and> \<not> truthy (nn_password (newNote s)) \<longrightarrow>
      handleSaveNewNote ev s = emit (Alert (js ''Title required'')) s
      \<or> handleSaveNewNote ev s = emit (Alert (js ''Password required for encryption'')) s)
   \<and> (ef_is_encrypted (editForm s) \<and> \<not> truthy (ef_password (editForm s))
        \<and> \<not> truthy (unlockPassword s) \<longrightarrow>
      handleUpdateNote ev s =
        (case selectedNote s of
           None \<Rightarrow> s
         | Some nt \<Rightarrow> emit (Alert (js ''Password required to save encrypted note'')) s))
   \<and> backend (emit e s) = backend s \<and> generator (emit e s) = generator s
   \<and> effects (emit e s) = effects s @ [e]"
  by (simp add: handleSaveNewNote_def handleUpdateNote_def Let_def emit_def split: option.splits)

theorem save_requires_password_witness:
  "length (effects (handleSaveNewNote toy_env demo_unsaved)) = 1
   \<and> backend (handleSaveNewNote toy_env demo_unsaved) = demo_backend
   \<and> effects (handleUpdateNote toy_env demo_unsaved)
        = [Alert (js ''Password required to save encrypted note'')]
   \<and> backend (handleUpdateNote toy_env demo_unsaved) = demo_backend"
proof -
  have p: "nn_encrypt (newNote demo_unsaved)" "\<not> truthy (nn_password (newNote demo_unsaved))"
    "ef_is_encrypted (editForm demo_unsaved)" "\<not> truthy (ef_password (editForm demo_unsaved))"
    "\<not> truthy (unlockPassword demo_unsaved)"
    by (simp_all add: demo_unsaved_def truthy_def)
  have sel: "selectedNote demo_unsaved = Some demo_note"
    by (simp add: selectedNote_def demo_unsaved_def demo_state_def demo_note_def)
  have e: "effects demo_unsaved = []" "backend demo_unsaved = demo_backend"
    by (simp_all add: demo_unsaved_def demo_state_def initial_def)
  from save_requires_password [of demo_unsaved toy_env] p sel e show ?thesis
    by (auto simp: emit_def)
qed

section \<open>What a save writes\<close>

lemma inserts_append: "inserts (xs @ ys) = inserts xs @ inserts ys"
  by (induction xs rule: inserts.induct) simp_all

lemma updates_append: "updates (xs @ ys) = updates xs @ updates ys"
  by (induction xs rule: updates.induct) simp_all

lemma writes_emit:
  "writes (emit e s) =
     (inserts (effects s) @ inserts [e], updates (effects s) @ updates [e])"
  by (simp add: writes_def emit_def inserts_append updates_append)

lemma writes_fields:
  "effects s' = effects s \<Longrightarrow> writes s' = writes s"
  by (simp add: writes_def)

lemma writes_prepare_upload: "writes (snd (prepare_upload ev f enc pw s)) = writes s"
  by (simp add: prepare_upload_def writes_emit split: prod.splits)
    (simp add: writes_def)

lemma writes_upload_one: "writes (snd (upload_one ev f enc pw s)) = writes s"
  using writes_prepare_upload [of ev f enc pw s]
  by (auto simp: upload_one_def writes_emit split: prod.splits sum.splits)
    (simp_all add: writes_def)


lemma writes_processFileUploads:
  "writes (snd (processFileUploads ev fs enc pw s)) = writes s"
proof (induction fs arbitrary: s)
  case Nil
  show ?case by simp
next
  case (Cons f fs)
  show ?case
  proof (cases "upload_one ev f enc pw s")
    case (Pair r s1)
    have s1: "writes s1 = writes s"
      using writes_upload_one [of ev f enc pw s] Pair by simp
    show ?thesis
    proof (cases r)
      case (Inl e)
      with Pair s1 show ?thesis by simp
    next
      case (Inr path)
      have "writes (snd (processFileUploads ev fs enc pw s1)) = writes s"
        using Cons.IH [of s1] s1 by simp
      with Pair Inr show ?thesis
        by (simp add: snd_pass)
    qed
  qed
qed

lemma writes_encrypt_content: "writes (snd (encrypt_content ev c pw s)) = writes s"
  by (simp add: encrypt_content_def writes_emit split: prod.splits) (simp add: writes_def)

lemma build_payload_title:
  "build_payload ev enc t c pw cat ps d s = (Inr pl, s') \<Longrightarrow> np_title pl = t"
  by (auto simp: build_payload_def split: if_splits prod.splits sum.splits)

lemma writes_build_payload:
  "writes (snd (build_payload ev enc t c pw cat ps d s)) = writes s"
  using writes_encrypt_content [of ev c pw s]
  by (auto simp: build_payload_def split: prod.splits sum.splits)

lemma writes_fetchNotes: "writes (fetchNotes ev s) = writes s"
  by (simp add: fetchNotes_def writes_def emit_def inserts_append updates_append
        split: sum.splits)

lemma writes_insert_note:
  "writes (snd (insert_note ev pl s)) = (inserts (effects s) @ [pl], updates (effects s))"
  by (simp add: insert_note_def writes_def emit_def inserts_append updates_append
        split: prod.splits)

lemma writes_update_note:
  "writes (snd (update_note ev i pl s)) = (inserts (effects s), updates (effects s) @ [(i, pl)])"
  by (simp add: update_note_def writes_def emit_def inserts_append updates_append
        split: prod.splits)

lemma writes_after_insert: "writes (after_insert ev s) = writes s"
  using writes_fetchNotes
    [of ev "s\<lparr>newNote := empty_new_note (env_platform ev) (clock s), stagedFiles := [],
           isCreating := False, selectedCategory := js ''all'', searchQuery := []\<rparr>"]
  by (simp add: after_insert_def writes_def)

lemma writes_after_update: "writes (after_update ev s) = writes s"
  using writes_fetchNotes [of ev "s\<lparr>stagedFiles := [], isEditing := False\<rparr>"]
  by (simp add: after_update_def writes_def)

lemma writes_catch_alert: "writes (catch_alert p pre r) = writes (snd r)"
  by (cases r)
    (simp add: catch_alert_def writes_def emit_def inserts_append updates_append
      split: option.splits)

lemma writes_pfuD:
  "processFileUploads ev fs enc pw s = (r, s') \<Longrightarrow> writes s' = writes s"
  using writes_processFileUploads [of ev fs enc pw s] by simp

lemma writes_buildD:
  "build_payload ev enc t c pw cat ps d s = (r, s') \<Longrightarrow> writes s' = writes s"
  using writes_build_payload [of ev enc t c pw cat ps d s] by simp

lemma writes_insertD:
  "insert_note ev pl s = (r, s')
   \<Longrightarrow> writes s' = (inserts (effects s) @ [pl], updates (effects s))"
  using writes_insert_note [of ev pl s] by simp

lemma writes_updateD:
  "update_note ev i pl s = (r, s')
   \<Longrightarrow> writes s' = (inserts (effects s), updates (effects s) @ [(i, pl)])"
  using writes_update_note [of ev i pl s] by simp

lemma save_new_body_writes:
  "writes (snd (save_new_body ev s)) = writes s
   \<or> (\<exists>pl. writes (snd (save_new_body ev s)) = (inserts (effects s) @ [pl], updates (effects s))
            \<and> np_title pl = nn_title (newNote s))"
proof (cases "processFileUploads ev (stagedFiles s) (nn_encrypt (newNote s))
                (Some (nn_password (newNote s))) s")
  case (Pair r1 s1)
  note w1 = writes_pfuD [OF Pair]
  show ?thesis
  proof (cases r1)
    case (Inl e)
    with Pair w1 show ?thesis by (simp add: save_new_body_def Let_def)
  next
    case (Inr paths)
    show ?thesis
    proof (cases "toISOString (env_platform ev) (nn_date (newNote s))")
      case None
      with Pair Inr w1 show ?thesis by (simp add: save_new_body_def Let_def)
    next
      case (Some createdAt)
      show ?thesis
      proof (cases "build_payload ev (nn_encrypt (newNote s)) (nn_title (newNote s))
                      (nn_content (newNote s)) (nn_password (newNote s))
                      (nn_category (newNote s)) paths createdAt s1")
        case b: (Pair r2 s2)
        note w2 = writes_buildD [OF b]
        show ?thesis
        proof (cases r2)
          case (Inl e)
          with Pair Inr Some b w1 w2 show ?thesis by (simp add: save_new_body_def Let_def)
        next
          case pl: (Inr pl)
          have t: "np_title pl = nn_title (newNote s)"
            using b pl by (auto dest: build_payload_title)
          show ?thesis
          proof (cases "insert_note ev pl s2")
            case i: (Pair r3 s3)
            have w3: "writes s3 = (inserts (effects s) @ [pl], updates (effects s))"
              using writes_insertD [OF i] w1 w2 by (simp add: writes_def)
            have "snd (save_new_body ev s) = s3 \<or> snd (save_new_body ev s) = after_insert ev s3"
              using Pair Inr Some b pl i
              by (cases r3) (simp_all add: save_new_body_def Let_def)
            then have "writes (snd (save_new_body ev s)) = writes s3"
              by (auto simp: writes_after_insert)
            with w3 t show ?thesis by auto
          qed
        qed
      qed
    qed
  qed
qed


lemma update_body_writes:
  "writes (snd (update_body ev nt pwd s)) = writes s
   \<or> (\<exists>pl. writes (snd (update_body ev nt pwd s))
               = (inserts (effects s), updates (effects s) @ [(n_id nt, pl)])
            \<and> np_title pl = ef_title (editForm s))"
proof (cases "processFileUploads ev (stagedFiles s) (ef_is_encrypted (editForm s)) (Some pwd) s")
  case (Pair r1 s1)
  note w1 = writes_pfuD [OF Pair]
  show ?thesis
  proof (cases r1)
    case (Inl e)
    with Pair w1 show ?thesis by (simp add: update_body_def Let_def)
  next
    case (Inr paths)
    show ?thesis
    proof (cases "toISOString (env_platform ev) (ef_date (editForm s))")
      case None
      with Pair Inr w1 show ?thesis by (simp add: update_body_def Let_def)
    next
      case (Some createdAt)
      show ?thesis
      proof (cases "build_payload ev (ef_is_encrypted (editForm s)) (ef_title (editForm s))
                      (ef_content (editForm s)) pwd (ef_category (editForm s))
                      (existingAttachments s @ paths) createdAt s1")
        case b: (Pair r2 s2)
        note w2 = writes_buildD [OF b]
        show ?thesis
        proof (cases r2)
          case (Inl e)
          with Pair Inr Some b w1 w2 show ?thesis by (simp add: update_body_def Let_def)
        next
          case pl: (Inr pl)
          have t: "np_title pl = ef_title (editForm s)"
            using b pl by (auto dest: build_payload_title)
          show ?thesis
          proof (cases "update_note ev (n_id nt) pl s2")
            case i: (Pair r3 s3)
            have w3: "writes s3 = (inserts (effects s), updates (effects s) @ [(n_id nt, pl)])"
              using writes_updateD [OF i] w1 w2 by (simp add: writes_def)
            have "snd (update_body ev nt pwd s) = s3
                \<or> snd (update_body ev nt pwd s) = after_update ev s3"
              using Pair Inr Some b pl i
              by (cases r3) (simp_all add: update_body_def Let_def)
            then have "writes (snd (update_body ev nt pwd s)) = writes s3"
              by (auto simp: writes_after_update)
            with w3 t show ?thesis by auto
          qed
        qed
      qed
    qed
  qed
qed

lemma writes_uploading: "writes (s\<lparr>isUploading := b\<rparr>) = writes s"
  by (simp add: writes_def)

lemma handleSaveNewNote_writes:
  "writes (handleSaveNewNote ev s) = writes s
   \<or> (\<exists>pl. writes (handleSaveNewNote ev s) = (inserts (effects s) @ [pl], updates (effects s))
            \<and> np_title pl = nn_title (newNote s))"
  using save_new_body_writes [of ev "s\<lparr>isUploading := True\<rparr>"]
  by (auto simp: handleSaveNewNote_def Let_def writes_catch_alert writes_emit writes_uploading)
    (simp_all add: writes_def)

lemma handleUpdateNote_writes:
  "writes (handleUpdateNote ev s) = writes s
   \<or> (\<exists>nt pl. selectedNote s = Some nt
            \<and> writes (handleUpdateNote ev s)
                = (inserts (effects s), updates (effects s) @ [(n_id nt, pl)])
            \<and> np_title pl = ef_title (editForm s))"
proof (cases "selectedNote s")
  case None
  then show ?thesis by (simp add: handleUpdateNote_def)
next
  case (Some nt)
  define pwd where "pwd = (if truthy (ef_password (editForm s)) then ef_password (editForm s)
                           else unlockPassword s)"
  show ?thesis
  proof (cases "ef_is_encrypted (editForm s) \<and> \<not> truthy pwd")
    case True
    then show ?thesis
      using Some by (simp add: handleUpdateNote_def Let_def pwd_def writes_emit) (simp add: writes_def)
  next
    case False
    then have "handleUpdateNote ev s
        = catch_alert (env_platform ev) ''Error updating: ''
            (update_body ev nt pwd (s\<lparr>isUploading := True\<rparr>))"
      using Some by (auto simp: handleUpdateNote_def Let_def pwd_def)
    then show ?thesis
      using update_body_writes [of ev nt pwd "s\<lparr>isUploading := True\<rparr>"] Some
      by (auto simp: writes_catch_alert writes_uploading)
  qed
qed

lemma build_payload_fields:
  assumes "build_payload ev True t c pw cat ps d s = (Inr pl, s')"
  shows "np_title pl = t \<and> np_is_encrypted pl \<and> np_category pl = cat
     \<and> np_attachments pl = ps \<and> np_created_at pl = d
     \<and> (case fst (encryptData (env_crypto ev) c pw None (generator s)) of
          Inl e \<Rightarrow> False
        | Inr enc \<Rightarrow> np_content pl = ciphertext enc \<and> np_iv pl = Some (iv enc)
                     \<and> np_salt pl = Some (salt enc))"
  using assms
  by (auto simp: build_payload_def encrypt_content_def split: prod.splits sum.splits)

text \<open>
  C10. A save writes nothing, or hands the store one payload whose title is the
  title of the form as typed: \<^verbatim>\<open>handleSaveNewNote\<close> by an insert,
  \<^verbatim>\<open>handleUpdateNote\<close> by an update of the selected note. In the payload of an
  encrypted save the title, category, attachment paths and date are those given,
  and the content, nonce and salt are those \<^verbatim>\<open>encryptData\<close> returns for the
  content. The row inserted and the update sent carry the payload's title
  unchanged. An unlock that succeeds puts the stored title of the note itself in
  the cache, beside the decrypted content.
\<close>

theorem title_plaintext:
  "(writes (handleSaveNewNote ev s) = writes s
     \<or> (\<exists>pl. writes (handleSaveNewNote ev s) = (inserts (effects s) @ [pl], updates (effects s))
              \<and> np_title pl = nn_title (newNote s)))
   \<and> (writes (handleUpdateNote ev s) = writes s
       \<or> (\<exists>nt pl. selectedNote s = Some nt
              \<and> writes (handleUpdateNote ev s)
                  = (inserts (effects s), updates (effects s) @ [(n_id nt, pl)])
              \<and> np_title pl = ef_title (editForm s)))
   \<and> (build_payload ev True t c pw cat ps d s = (Inr pl, s') \<longrightarrow>
        np_title pl = t \<and> np_is_encrypted pl \<and> np_category pl = cat
        \<and> np_attachments pl = ps \<and> np_created_at pl = d
        \<and> (case fst (encryptData (env_crypto ev) c pw None (generator s)) of
             Inl e \<Rightarrow> False
           | Inr enc \<Rightarrow> np_content pl = ciphertext enc \<and> np_iv pl = Some (iv enc)
                        \<and> np_salt pl = Some (salt enc)))
   \<and> r_title (insert_payload p now uid pl) = np_title pl
   \<and> u_title (update_payload pl) = np_title pl
   \<and> (selectedNote s = Some nt \<and> decrypt_note (env_crypto ev) nt (unlockPassword s) = Inr x \<longrightarrow>
        decryptedCache (handleUnlock ev s) (n_id nt)
          = Some \<lparr>p_title = n_title nt, p_content = x\<rparr>)"
  using handleSaveNewNote_writes [of ev s] handleUpdateNote_writes [of ev s]
    build_payload_fields [of ev t c pw cat ps d s pl s']
  by (simp add: insert_payload_def update_payload_def handleUnlock_success(1))

lemma demo_new_saved:
  "inserts (effects (handleSaveNewNote toy_env demo_new)) \<noteq> []"
  by (simp add: handleSaveNewNote_def demo_new_def demo_state_def initial_def Let_def
        save_new_body_def toy_env_def toy_platform_def build_payload_def encrypt_content_def
        encryptData_fresh truthy_opt_def truthy_def trim_def js_def is_white_space_def
        is_line_terminator_def
        insert_note_def db_insertNote_def toy_store_def after_insert_def fetchNotes_def
        catch_alert_def emit_def)

theorem title_plaintext_witness:
  "map np_title (inserts (effects (handleSaveNewNote toy_env demo_new))) = [js ''Secret'']
   \<and> decryptedCache (handleUnlock toy_env demo_state) (js ''a'')
       = Some \<lparr>p_title = js ''Diary'', p_content = js ''hello''\<rparr>"
proof -
  have e: "effects demo_new = []" "nn_title (newNote demo_new) = js ''Secret''"
    by (simp_all add: demo_new_def demo_state_def initial_def)
  have n: "n_id demo_note = js ''a''" "n_title demo_note = js ''Diary''"
    by (simp_all add: demo_note_def)
  note t = title_plaintext [of toy_env demo_new]
  note u = title_plaintext [of toy_env demo_state _ _ _ _ _ _ _ _ _ _ _ demo_note "js ''hello''"]
  from t [THEN conjunct1] demo_new_saved e
  have "map np_title (inserts (effects (handleSaveNewNote toy_env demo_new))) = [js ''Secret'']"
    by (auto simp: writes_def)
  moreover from u demo_selected demo_decrypts n
  have "decryptedCache (handleUnlock toy_env demo_state) (js ''a'')
       = Some \<lparr>p_title = js ''Diary'', p_content = js ''hello''\<rparr>"
    by simp
  ultimately show ?thesis by simp
qed

section \<open>The attachment indexer and its callers\<close>

lemma demo_sealed_file_eq:
  "fst (encryptFile toy_crypto
          \<lparr>file_name = js ''a.txt'', file_bytes = [0x68, 0x69], file_type = js ''text/plain''\<rparr>
          (js ''pw'') zero_rng) = Inr demo_sealed_file"
  by (simp add: encryptFile_eq demo_sealed_file_def)

lemma demo_path_text:
  "getFileNameFromPath (js ''u1/1_a.txt'') = js ''1_a.txt''"
  "isTextFile toy_platform (js ''1_a.txt'')"
  by (simp_all add: getFileNameFromPath_def last_segment_def js_def strip_stamp_def js_or_def
        truthy_def isTextFile_def file_ext_def toy_platform_def)



lemma utf8_run_ascii: "\<forall>b\<in>set bs. b < 128 \<Longrightarrow> utf8_run utf8_init bs = bs"
  by (induction bs) (simp_all add: utf8_step_def utf8_lead_def utf8_init_def)

lemma dec_decode_ascii:
  assumes "\<forall>b\<in>set bs. unat b < 128"
  shows "dec_decode bs = map ucast bs"
proof -
  have "strip_bom bs = bs"
  proof (cases bs)
    case Nil
    then show ?thesis by (simp add: strip_bom_def)
  next
    case (Cons b r)
    with assms have "unat b < 128" by simp
    then have "b \<noteq> 0xEF" by auto
    with Cons show ?thesis by (simp add: strip_bom_def)
  qed
  moreover have "utf8_run utf8_init (map unat bs) = map unat bs"
    using assms by (intro utf8_run_ascii) simp
  moreover have "concat (map from_scalar (map unat bs)) = map ucast bs"
    using assms by (induction bs) (simp_all add: from_scalar_def)
  ultimately show ?thesis by (simp add: dec_decode_def)
qed


lemma demo_sealed_download:
  "db_downloadFile toy_store toy_platform (js ''u1/1_a.txt'') (backend demo_sealed)
     = Inr demo_sealed_file"
  by (simp add: db_downloadFile_def toy_store_def demo_sealed_def demo_state_def)


lemma demo_sealed_opens:
  "decryptFile toy_crypto demo_sealed_file (js ''pw'') m
     = Inr \<lparr>blob_bytes = [0x68, 0x69], blob_type = blob_type_of (js_or m octet_stream)\<rparr>"
  by (simp add: decryptFile_eq demo_sealed_file_def toy_round_trip)

lemma index_demo_some:
  "attachmentTextCache
     (indexAttachments toy_env demo_note (Some (js ''pw'')) Map.empty Map.empty demo_sealed)
     (js ''u1/1_a.txt'')
   = Some (js ''hi'')"
proof -
  have d: "dec_decode [0x68, 0x69] = js ''hi''"
    by (simp add: dec_decode_ascii js_def)
  have p: "truthy (js ''pw'')"
    by (simp add: truthy_def js_def)
  show ?thesis
    by (simp add: indexAttachments_def demo_note_def index_path_def demo_path_text Let_def
        toy_env_def cached_def truthy_opt_def index_text_def fetch_final_def emit_def
        demo_sealed_download catch_warn_def demo_sealed_opens p d)
qed

text \<open>What the indexer does with one path, and how it goes on.\<close>

lemma caches_emit [simp]:
  "attachmentTextCache (emit e s) = attachmentTextCache s"
  "attachmentImageCache (emit e s) = attachmentImageCache s"
  "backend (emit e s) = backend s"
  by (simp_all add: emit_def)












end
